theory Spec2Isabelle
  imports Main "HOL-Library.Multiset" "HOL-Library.Sublist"
begin

section \<open>The thread pool of runtime/thread\_pool.cc\<close>

text \<open>
  Every field of the pool is read and written under \<open>task_queue_lock_\<close>, so a thread's
  code between two points where it gives the lock up is one atomic step.  The model is
  an interleaving of such steps: a schedule is a list of events, each one naming the
  thread that moves (or the call an outside thread makes), and \<open>step\<close> executes one
  event on the pool.  A thread blocked in a condition wait may resume at any step of
  the schedule (condition variables allow spurious wake-ups), so every property proved
  over all schedules holds for the schedules the real notifications allow.  The calls
  of \<open>Signal\<close> and \<open>Broadcast\<close> are kept as a history in the pool, so that what is notified,
  and when, can be stated.
\<close>

subsection \<open>Data\<close>

type_synonym task = nat
  \<comment> \<open>a \<open>Task*\<close>; the pool only calls \<open>Run\<close> and \<open>Finalize\<close> on it\<close>

datatype stage =
    Fetched   \<comment> \<open>handed out by the pool, \<open>task->Run(self)\<close> not yet called\<close>
  | Running   \<comment> \<open>inside \<open>task->Run(self)\<close>\<close>
  | Ran       \<comment> \<open>\<open>Run\<close> has returned, \<open>task->Finalize()\<close> not yet called\<close>

text \<open>Where a worker thread is in \<open>ThreadPoolWorker::Run\<close> (lines 110-118).\<close>

datatype worker =
    W_GetTask           \<comment> \<open>calling \<open>GetTask\<close>, not yet holding the lock\<close>
  | W_CondWait          \<comment> \<open>inside \<open>task_queue_condition_.Wait\<close> (line 286)\<close>
  | W_Task stage task   \<comment> \<open>lines 115-116\<close>
  | W_Exited            \<comment> \<open>\<open>GetTask\<close> returned null, the loop is left\<close>

text \<open>Where an outside thread is in \<open>AbstractThreadPool::Wait\<close> (lines 317-335).\<close>

datatype caller =
    C_Outside           \<comment> \<open>not inside \<open>Wait\<close>\<close>
  | C_TryGetTask        \<comment> \<open>\<open>do_work\<close> loop, about to call \<open>TryGetTask\<close> (line 321)\<close>
  | C_Task stage task   \<comment> \<open>lines 322-323\<close>
  | C_Check             \<comment> \<open>about to take the lock and test the condition of line 328\<close>
  | C_CondWait          \<comment> \<open>inside \<open>completion_condition_.Wait\<close> (lines 330, 332)\<close>

text \<open>Where the thread that destroys the pool is in \<open>ThreadPool::~ThreadPool\<close>.\<close>

datatype lifecycle =
    Alive               \<comment> \<open>the destructor has not been entered\<close>
  | Joining             \<comment> \<open>\<open>DeleteThreads\<close>, line 239: joining the workers\<close>
  | Draining            \<comment> \<open>\<open>RemoveAllTasks\<close>, about to take the lock (line 165)\<close>
  | Finalizing task     \<comment> \<open>\<open>RemoveAllTasks\<close>, line 172, lock released\<close>
  | Destroyed

datatype actor = Worker nat | Caller nat | Destructor

datatype action = Started | Run task | Finalize task | ExitLoop

text \<open>The two condition variables of the pool, and the calls that notify them.\<close>

datatype condition =
    task_queue_condition   \<comment> \<open>\<open>task_queue_condition_\<close>: the workers wait on it in \<open>GetTask\<close>\<close>
  | completion_condition   \<comment> \<open>\<open>completion_condition_\<close>: the callers of \<open>Wait\<close> wait on it\<close>

datatype notification = Signal condition | Broadcast condition

datatype fault =
    CHECK_threads_empty        \<comment> \<open>line 200\<close>
  | CHECK_LE_max_workers       \<comment> \<open>line 244\<close>
  | CHECK_not_create_peers     \<comment> \<open>line 319\<close>
  | Undefined_behaviour        \<comment> \<open>\<open>front()\<close> of an empty deque, use of a destroyed pool\<close>
  | Not_enabled                \<comment> \<open>the thread named by the event cannot move now\<close>

text \<open>
  The fields of \<open>AbstractThreadPool\<close> and \<open>ThreadPool\<close> that the scheduling code uses.
  \<open>threads\<close> is \<open>threads_\<close> with, for each worker, the place its thread has reached.
  The last five fields are history: the threads inside \<open>Wait\<close>, every task ever passed
  to \<open>AddTask\<close>, every \<open>pop_front\<close> with the thread that made it, every call into a
  task with the thread that made it, and every \<open>Signal\<close> and \<open>Broadcast\<close> in the order of
  the calls.
\<close>

record pool =
  tasks :: "task list"
  threads :: "worker list"
  started :: bool
  shutting_down :: bool
  waiting_count :: nat
  max_active_workers :: nat
  create_peers :: bool
  lifecycle :: lifecycle
  callers :: "caller list"
  submitted :: "task list"
  dequeued :: "(actor \<times> task) list"
  trace :: "(actor \<times> action) list"
  notified :: "notification list"

text \<open>
  The constructor \<open>AbstractThreadPool::AbstractThreadPool\<close> (lines 181-197);
  \<open>k\<close> is the number of outside threads that may call \<open>Wait\<close>.
\<close>

definition AbstractThreadPool :: "nat \<Rightarrow> bool \<Rightarrow> nat \<Rightarrow> pool" where
  "AbstractThreadPool num_threads peers k =
     \<lparr>tasks = [], threads = [], started = False, shutting_down = False,
      waiting_count = 0, max_active_workers = num_threads, create_peers = peers,
      lifecycle = Alive, callers = replicate k C_Outside,
      submitted = [], dequeued = [], trace = [], notified = []\<rparr>"

subsection \<open>Helpers declared in thread\_pool.h\<close>

text \<open>
  Modelled from the spec: \<open>GetThreadCount()\<close> is declared in thread\_pool.h, which is not
  among the sources; the spec calls its value the roster size, the number of workers
  in \<open>threads_\<close>.
\<close>

definition GetThreadCount :: "pool \<Rightarrow> nat" where
  "GetThreadCount p = length (threads p)"

text \<open>
  Modelled from the spec: \<open>IsShuttingDown()\<close> is declared in thread\_pool.h; the spec has
  \<open>get_task\<close> "loop while not shutting down" and leave the loop "because
  \<open>shutting_down\<close> is set".
\<close>

definition IsShuttingDown :: "pool \<Rightarrow> bool" where
  "IsShuttingDown p = shutting_down p"

text \<open>
  Modelled from the spec: \<open>HasOutstandingTasks()\<close> is declared in thread\_pool.h.  In
  thread\_pool.cc a worker reaches the queue only through \<open>GetTask\<close> and
  \<open>TryGetTaskLocked\<close>, which test \<open>IsShuttingDown()\<close>, the admission cap and
  \<open>HasOutstandingTasks()\<close> and never \<open>started_\<close> itself (\<open>started_\<close> is read by \<open>AddTask\<close>,
  to decide whether to signal, and by \<open>HasStarted\<close> only).  The spec has the workers
  created "(blocked, pre-start)", has the client start the pool "(unblocking Workers)"
  and says of \<open>stop()\<close>: "it only prevents new dequeues until \<open>start()\<close> is called
  again".  With the code of \<open>GetTask\<close> as it is, that is the case exactly if this helper
  answers for a started pool only.  So an outstanding task is a queued task of a
  started pool.

  The functions below take the helper as a parameter \<open>H\<close>, and the theorems that do not
  depend on what it answers are proved for every \<open>H\<close>.
\<close>

definition HasOutstandingTasks :: "pool \<Rightarrow> bool" where
  "HasOutstandingTasks p = (started p \<and> tasks p \<noteq> [])"

subsection \<open>The operations, each under the lock\<close>

text \<open>A call of \<open>Signal\<close> or \<open>Broadcast\<close> goes into the history.\<close>

definition notify :: "notification \<Rightarrow> pool \<Rightarrow> pool" where
  "notify x p = p\<lparr>notified := notified p @ [x]\<rparr>"

text \<open>
  \<open>ThreadPool::AddTask\<close> (lines 150-157), with the \<open>Signal\<close> of line 155, sent when the
  pool is started and a worker waits.
\<close>

definition AddTask :: "task \<Rightarrow> pool \<Rightarrow> pool" where
  "AddTask t p =
     (let p' = p\<lparr>tasks := tasks p @ [t], submitted := submitted p @ [t]\<rparr>
      in if started p' \<and> waiting_count p' \<noteq> 0
         then notify (Signal task_queue_condition) p' else p')"

text \<open>\<open>AbstractThreadPool::StartWorkers\<close> (lines 248-254), without the wait-time statistics.\<close>

definition StartWorkers :: "pool \<Rightarrow> pool" where
  "StartWorkers p = notify (Broadcast task_queue_condition) (p\<lparr>started := True\<rparr>)"

text \<open>\<open>AbstractThreadPool::StopWorkers\<close> (lines 256-259).\<close>

definition StopWorkers :: "pool \<Rightarrow> pool" where
  "StopWorkers p = p\<lparr>started := False\<rparr>"

text \<open>\<open>AbstractThreadPool::SetMaxActiveWorkers\<close> (lines 242-246).\<close>

definition SetMaxActiveWorkers :: "nat \<Rightarrow> pool \<Rightarrow> fault + pool" where
  "SetMaxActiveWorkers max_workers p =
     (if max_workers \<le> GetThreadCount p
      then Inr (p\<lparr>max_active_workers := max_workers\<rparr>)
      else Inl CHECK_LE_max_workers)"

text \<open>
  The loop of \<open>CreateThreads\<close> (lines 207-212).  A new worker's thread runs \<open>Callback\<close>
  and \<open>ThreadPoolWorker::Run\<close>, which passes the creation barrier and calls \<open>GetTask\<close>.
\<close>

function spawn :: "pool \<Rightarrow> pool" where
  "spawn p =
     (if GetThreadCount p < max_active_workers p
      then spawn (p\<lparr>threads := threads p @ [W_GetTask],
                     trace := trace p @ [(Worker (GetThreadCount p), Started)]\<rparr>)
      else p)"
  by pat_completeness auto
termination
  by (relation "measure (\<lambda>p. max_active_workers p - GetThreadCount p)")
     (auto simp: GetThreadCount_def)

declare spawn.simps [simp del]

text \<open>\<open>AbstractThreadPool::CreateThreads\<close> (lines 199-214).\<close>

definition CreateThreads :: "pool \<Rightarrow> fault + pool" where
  "CreateThreads p =
     (if threads p \<noteq> [] then Inl CHECK_threads_empty
      else Inr (spawn (p\<lparr>shutting_down := False\<rparr>)))"

text \<open>\<open>ThreadPool::TryGetTaskLocked\<close> (lines 303-310).\<close>

definition TryGetTaskLocked :: "(pool \<Rightarrow> bool) \<Rightarrow> pool \<Rightarrow> fault + (task option \<times> pool)" where
  "TryGetTaskLocked H p =
     (if H p then
        (case tasks p of
           [] \<Rightarrow> Inl Undefined_behaviour
         | task # rest \<Rightarrow> Inr (Some task, p\<lparr>tasks := rest\<rparr>))
      else Inr (None, p))"

text \<open>\<open>AbstractThreadPool::TryGetTask\<close> (lines 298-301).\<close>

definition TryGetTask :: "(pool \<Rightarrow> bool) \<Rightarrow> pool \<Rightarrow> fault + (task option \<times> pool)" where
  "TryGetTask H p = TryGetTaskLocked H p"

text \<open>
  \<open>AbstractThreadPool::GetTask\<close> (lines 266-296) from the loop test of line 268 to the
  point where it returns or gives the lock up in \<open>task_queue_condition_.Wait\<close>.
  \<open>Waits b\<close>: the thread waits, and \<open>b\<close> tells whether \<open>completion_condition_\<close> was
  broadcast (line 283).  The counters are \<open>size_t\<close> in the source and natural numbers
  here: in every run \<open>waiting_count_\<close> is the number of workers inside the condition
  wait (lemma \<open>no_wrap\<close> below), so the subtraction of line 271 and the decrement of
  line 291 stay above zero and the increment of line 280 stays within the number of
  workers.
\<close>

datatype get_task = Returns "task option" | Waits bool

definition GetTask :: "(pool \<Rightarrow> bool) \<Rightarrow> pool \<Rightarrow> fault + (get_task \<times> pool)" where
  "GetTask H p =
     (if IsShuttingDown p then Inr (Returns None, p)
      else
        let thread_count = GetThreadCount p;
            active_threads = thread_count - waiting_count p;
            attempt = (if active_threads \<le> max_active_workers p
                       then TryGetTaskLocked H p else Inr (None, p))
        in case attempt of
             Inl f \<Rightarrow> Inl f
           | Inr (Some task, p') \<Rightarrow> Inr (Returns (Some task), p')
           | Inr (None, p') \<Rightarrow>
               let p'' = p'\<lparr>waiting_count := waiting_count p' + 1\<rparr>
               in if waiting_count p'' = GetThreadCount p'' \<and> \<not> H p''
                  then Inr (Waits True, notify (Broadcast completion_condition) p'')
                  else Inr (Waits False, p''))"

text \<open>The same after a wake-up: line 291, then the loop test again.\<close>

definition GetTask_resumed :: "(pool \<Rightarrow> bool) \<Rightarrow> pool \<Rightarrow> fault + (get_task \<times> pool)" where
  "GetTask_resumed H p = GetTask H (p\<lparr>waiting_count := waiting_count p - 1\<rparr>)"

text \<open>The condition of the loop of \<open>Wait\<close> (line 328).\<close>

definition Wait_blocks :: "(pool \<Rightarrow> bool) \<Rightarrow> pool \<Rightarrow> bool" where
  "Wait_blocks H p =
     (\<not> shutting_down p \<and> (waiting_count p \<noteq> GetThreadCount p \<or> H p))"

text \<open>The locked block of \<open>DeleteThreads\<close> (lines 227-235); it broadcasts both conditions.\<close>

definition DeleteThreads_locked :: "pool \<Rightarrow> pool" where
  "DeleteThreads_locked p =
     notify (Broadcast completion_condition)
       (notify (Broadcast task_queue_condition) (p\<lparr>shutting_down := True\<rparr>))"

text \<open>The locked block of \<open>ThreadPool::RemoveAllTasks\<close> (lines 164-171).\<close>

definition RemoveAllTasks_locked :: "pool \<Rightarrow> task option \<times> pool" where
  "RemoveAllTasks_locked p =
     (case tasks p of
        [] \<Rightarrow> (None, p)
      | task # rest \<Rightarrow> (Some task, p\<lparr>tasks := rest\<rparr>))"

subsection \<open>Threads\<close>

text \<open>A thread moves on; a call into a task or a \<open>pop_front\<close> goes into the history.\<close>

definition set_worker :: "nat \<Rightarrow> worker \<Rightarrow> pool \<Rightarrow> pool" where
  "set_worker w x p = p\<lparr>threads := (threads p)[w := x]\<rparr>"

definition set_caller :: "nat \<Rightarrow> caller \<Rightarrow> pool \<Rightarrow> pool" where
  "set_caller c x p = p\<lparr>callers := (callers p)[c := x]\<rparr>"

definition record_action :: "actor \<Rightarrow> action \<Rightarrow> pool \<Rightarrow> pool" where
  "record_action a x p = p\<lparr>trace := trace p @ [(a, x)]\<rparr>"

definition record_pop :: "actor \<Rightarrow> task \<Rightarrow> pool \<Rightarrow> pool" where
  "record_pop a t p = p\<lparr>dequeued := dequeued p @ [(a, t)]\<rparr>"

text \<open>What worker \<open>w\<close> does with the result of \<open>GetTask\<close> (line 114).\<close>

definition worker_continues :: "nat \<Rightarrow> fault + (get_task \<times> pool) \<Rightarrow> fault + pool" where
  "worker_continues w r =
     (case r of
        Inl f \<Rightarrow> Inl f
      | Inr (Returns (Some t), p) \<Rightarrow>
          Inr (record_pop (Worker w) t (set_worker w (W_Task Fetched t) p))
      | Inr (Returns None, p) \<Rightarrow>
          Inr (record_action (Worker w) ExitLoop (set_worker w W_Exited p))
      | Inr (Waits b, p) \<Rightarrow> Inr (set_worker w W_CondWait p))"

text \<open>One step of worker \<open>w\<close>: \<open>ThreadPoolWorker::Run\<close>, lines 114-117.\<close>

definition worker_step :: "(pool \<Rightarrow> bool) \<Rightarrow> nat \<Rightarrow> pool \<Rightarrow> fault + pool" where
  "worker_step H w p =
     (if length (threads p) \<le> w then Inl Not_enabled
      else case threads p ! w of
          W_GetTask \<Rightarrow> worker_continues w (GetTask H p)
        | W_CondWait \<Rightarrow> worker_continues w (GetTask_resumed H p)
        | W_Task Fetched t \<Rightarrow>
            Inr (record_action (Worker w) (Run t) (set_worker w (W_Task Running t) p))
        | W_Task Running t \<Rightarrow> Inr (set_worker w (W_Task Ran t) p)
        | W_Task Ran t \<Rightarrow>
            Inr (record_action (Worker w) (Finalize t) (set_worker w W_GetTask p))
        | W_Exited \<Rightarrow> Inl Not_enabled)"

text \<open>Outside thread \<open>c\<close> enters \<open>Wait(self, do_work, may_hold_locks)\<close> (lines 317-319).\<close>

definition Wait_enter :: "nat \<Rightarrow> bool \<Rightarrow> bool \<Rightarrow> pool \<Rightarrow> fault + pool" where
  "Wait_enter c do_work may_hold_locks p =
     (if length (callers p) \<le> c \<or> callers p ! c \<noteq> C_Outside then Inl Not_enabled
      else if lifecycle p = Destroyed then Inl Undefined_behaviour
      else if do_work then
        (if create_peers p then Inl CHECK_not_create_peers
         else Inr (set_caller c C_TryGetTask p))
      else Inr (set_caller c C_Check p))"

text \<open>The test of line 328, on entry or after a wake-up of \<open>completion_condition_\<close>.\<close>

definition Wait_check :: "(pool \<Rightarrow> bool) \<Rightarrow> nat \<Rightarrow> pool \<Rightarrow> fault + pool" where
  "Wait_check H c p =
     (if lifecycle p = Destroyed then Inl Undefined_behaviour
      else if Wait_blocks H p then Inr (set_caller c C_CondWait p)
      else Inr (set_caller c C_Outside p))"

text \<open>One step of outside thread \<open>c\<close> inside \<open>Wait\<close> (lines 321-334).\<close>

definition caller_step :: "(pool \<Rightarrow> bool) \<Rightarrow> nat \<Rightarrow> pool \<Rightarrow> fault + pool" where
  "caller_step H c p =
     (if length (callers p) \<le> c then Inl Not_enabled
      else case callers p ! c of
          C_Outside \<Rightarrow> Inl Not_enabled
        | C_TryGetTask \<Rightarrow>
            (if lifecycle p = Destroyed then Inl Undefined_behaviour
             else case TryGetTask H p of
                 Inl f \<Rightarrow> Inl f
               | Inr (Some t, p') \<Rightarrow>
                   Inr (record_pop (Caller c) t (set_caller c (C_Task Fetched t) p'))
               | Inr (None, p') \<Rightarrow> Inr (set_caller c C_Check p'))
        | C_Task Fetched t \<Rightarrow>
            Inr (record_action (Caller c) (Run t) (set_caller c (C_Task Running t) p))
        | C_Task Running t \<Rightarrow> Inr (set_caller c (C_Task Ran t) p)
        | C_Task Ran t \<Rightarrow>
            Inr (record_action (Caller c) (Finalize t) (set_caller c C_TryGetTask p))
        | C_Check \<Rightarrow> Wait_check H c p
        | C_CondWait \<Rightarrow> Wait_check H c p)"

text \<open>
  One step of \<open>ThreadPool::~ThreadPool\<close> (lines 176-179): the locked block of
  \<open>DeleteThreads\<close>; then \<open>STLDeleteElements(&threads_)\<close>, which deletes every worker
  (\<open>~ThreadPoolWorker\<close>, lines 85-87, joins its thread and so returns only once the
  thread has left its loop) and empties \<open>threads_\<close>; then \<open>RemoveAllTasks\<close>, one locked
  block or one \<open>Finalize\<close> at a time.
\<close>

definition destructor_step :: "pool \<Rightarrow> fault + pool" where
  "destructor_step p =
     (case lifecycle p of
        Alive \<Rightarrow> Inr ((DeleteThreads_locked p)\<lparr>lifecycle := Joining\<rparr>)
      | Joining \<Rightarrow>
          (if list_all (\<lambda>w. w = W_Exited) (threads p)
           then Inr (p\<lparr>threads := [], lifecycle := Draining\<rparr>)
           else Inl Not_enabled)
      | Draining \<Rightarrow>
          (case RemoveAllTasks_locked p of
             (None, p') \<Rightarrow> Inr (p'\<lparr>lifecycle := Destroyed\<rparr>)
           | (Some t, p') \<Rightarrow> Inr (record_pop Destructor t (p'\<lparr>lifecycle := Finalizing t\<rparr>)))
      | Finalizing t \<Rightarrow> Inr (record_action Destructor (Finalize t) (p\<lparr>lifecycle := Draining\<rparr>))
      | Destroyed \<Rightarrow> Inl Undefined_behaviour)"

subsection \<open>Schedules\<close>

datatype event =
    E_AddTask task
  | E_CreateThreads
  | E_SetMaxActiveWorkers nat
  | E_StartWorkers
  | E_StopWorkers
  | E_Wait nat bool bool
  | E_Caller nat
  | E_Worker nat
  | E_Destructor

text \<open>
  A call on a destroyed pool is undefined.  \<open>CreateThreads\<close> next to the destructor is
  excluded as well: \<open>DeleteThreads\<close> leaves \<open>threads_\<close> unguarded and expects no
  \<open>CreateThreads\<close> beside it (lines 236-238).
\<close>

definition step :: "(pool \<Rightarrow> bool) \<Rightarrow> event \<Rightarrow> pool \<Rightarrow> fault + pool" where
  "step H e p =
     (case e of
        E_AddTask t \<Rightarrow>
          if lifecycle p = Destroyed then Inl Undefined_behaviour else Inr (AddTask t p)
      | E_CreateThreads \<Rightarrow>
          if lifecycle p \<noteq> Alive then Inl Undefined_behaviour else CreateThreads p
      | E_SetMaxActiveWorkers m \<Rightarrow>
          if lifecycle p = Destroyed then Inl Undefined_behaviour
          else SetMaxActiveWorkers m p
      | E_StartWorkers \<Rightarrow>
          if lifecycle p = Destroyed then Inl Undefined_behaviour else Inr (StartWorkers p)
      | E_StopWorkers \<Rightarrow>
          if lifecycle p = Destroyed then Inl Undefined_behaviour else Inr (StopWorkers p)
      | E_Wait c do_work may_hold_locks \<Rightarrow> Wait_enter c do_work may_hold_locks p
      | E_Caller c \<Rightarrow> caller_step H c p
      | E_Worker w \<Rightarrow> worker_step H w p
      | E_Destructor \<Rightarrow> destructor_step p)"

fun run :: "(pool \<Rightarrow> bool) \<Rightarrow> event list \<Rightarrow> pool \<Rightarrow> fault + pool" where
  "run H [] p = Inr p"
| "run H (e # es) p =
     (case step H e p of Inl f \<Rightarrow> Inl f | Inr p' \<Rightarrow> run H es p')"

subsection \<open>What a run shows\<close>

text \<open>The tasks on which \<open>Run\<close> was called, in the order of the calls.\<close>

fun run_of :: "actor \<times> action \<Rightarrow> task list" where
  "run_of (a, Run t) = [t]"
| "run_of (a, x) = []"

definition run_calls :: "(actor \<times> action) list \<Rightarrow> task list" where
  "run_calls tr = concat (map run_of tr)"

text \<open>The tasks on which \<open>Finalize\<close> was called.\<close>

fun finalize_of :: "actor \<times> action \<Rightarrow> task list" where
  "finalize_of (a, Finalize t) = [t]"
| "finalize_of (a, x) = []"

definition finalized :: "(actor \<times> action) list \<Rightarrow> task list" where
  "finalized tr = concat (map finalize_of tr)"

text \<open>Those finalized by \<open>RemoveAllTasks\<close> in the destructor, and those finalized by a
  worker's loop or by the loop of \<open>Wait\<close>.\<close>

fun drain_of :: "actor \<times> action \<Rightarrow> task list" where
  "drain_of (Destructor, Finalize t) = [t]"
| "drain_of (a, x) = []"

definition drained :: "(actor \<times> action) list \<Rightarrow> task list" where
  "drained tr = concat (map drain_of tr)"

fun execute_of :: "actor \<times> action \<Rightarrow> task list" where
  "execute_of (Destructor, x) = []"
| "execute_of (a, Finalize t) = [t]"
| "execute_of (a, x) = []"

definition executed :: "(actor \<times> action) list \<Rightarrow> task list" where
  "executed tr = concat (map execute_of tr)"

text \<open>No \<open>Finalize\<close> of a task comes before a \<open>Run\<close> of it.\<close>

definition Run_before_Finalize :: "(actor \<times> action) list \<Rightarrow> bool" where
  "Run_before_Finalize tr =
     (\<forall>l1 a t l2. tr = l1 @ (a, Run t) # l2 \<longrightarrow> t \<notin> set (finalized l1))"

text \<open>
  Before any \<open>Finalize\<close> made by the destructor, every worker thread ever started has
  left its loop, and after it no worker does anything.
\<close>

definition drain_after_exit :: "(actor \<times> action) list \<Rightarrow> bool" where
  "drain_after_exit tr =
     (\<forall>l1 t l2. tr = l1 @ (Destructor, Finalize t) # l2 \<longrightarrow>
        (\<forall>w. (Worker w, Started) \<in> set tr \<longrightarrow> (Worker w, ExitLoop) \<in> set l1)
        \<and> (\<forall>w x. (Worker w, x) \<notin> set l2))"

text \<open>The tasks a thread holds: before \<open>Run\<close> is called, and from then on.\<close>

fun w_fetched :: "worker \<Rightarrow> task multiset" where
  "w_fetched (W_Task Fetched t) = {#t#}"
| "w_fetched w = {#}"

fun w_begun :: "worker \<Rightarrow> task multiset" where
  "w_begun (W_Task Fetched t) = {#}"
| "w_begun (W_Task st t) = {#t#}"
| "w_begun w = {#}"

fun c_fetched :: "caller \<Rightarrow> task multiset" where
  "c_fetched (C_Task Fetched t) = {#t#}"
| "c_fetched c = {#}"

fun c_begun :: "caller \<Rightarrow> task multiset" where
  "c_begun (C_Task Fetched t) = {#}"
| "c_begun (C_Task st t) = {#t#}"
| "c_begun c = {#}"

fun d_fetched :: "lifecycle \<Rightarrow> task multiset" where
  "d_fetched (Finalizing t) = {#t#}"
| "d_fetched l = {#}"

definition fetched :: "pool \<Rightarrow> task multiset" where
  "fetched p = sum_list (map w_fetched (threads p)) + sum_list (map c_fetched (callers p))
               + d_fetched (lifecycle p)"

definition begun :: "pool \<Rightarrow> task multiset" where
  "begun p = sum_list (map w_begun (threads p)) + sum_list (map c_begun (callers p))"

text \<open>Counting workers: in the condition wait, holding a task, inside \<open>Run\<close>.\<close>

fun is_waiting :: "worker \<Rightarrow> nat" where
  "is_waiting W_CondWait = 1"
| "is_waiting w = 0"

fun has_task :: "worker \<Rightarrow> nat" where
  "has_task (W_Task st t) = 1"
| "has_task w = 0"

fun is_inside_Run :: "worker \<Rightarrow> nat" where
  "is_inside_Run (W_Task Running t) = 1"
| "is_inside_Run w = 0"

definition waiting :: "pool \<Rightarrow> nat" where
  "waiting p = sum_list (map is_waiting (threads p))"

definition busy :: "pool \<Rightarrow> nat" where
  "busy p = sum_list (map has_task (threads p))"

definition inside_Run :: "pool \<Rightarrow> nat" where
  "inside_Run p = sum_list (map is_inside_Run (threads p))"

text \<open>The task a worker has fetched and not yet begun to run.\<close>

fun w_hand :: "worker \<Rightarrow> task list" where
  "w_hand (W_Task Fetched t) = [t]"
| "w_hand w = []"

text \<open>The tasks on which one thread called \<open>Run\<close>, the tasks it took out of the queue, and
  the task it has taken and not yet begun to run.\<close>

fun run_by :: "actor \<Rightarrow> actor \<times> action \<Rightarrow> task list" where
  "run_by a (b, Run t) = (if a = b then [t] else [])"
| "run_by a (b, x) = []"

definition runs_of :: "actor \<Rightarrow> (actor \<times> action) list \<Rightarrow> task list" where
  "runs_of a tr = concat (map (run_by a) tr)"

definition pops_of :: "actor \<Rightarrow> (actor \<times> task) list \<Rightarrow> task list" where
  "pops_of a dq = map snd (filter (\<lambda>x. fst x = a) dq)"



text \<open>The pool as a worker finds it at the loop test of \<open>GetTask\<close>: on entry, or after
  line 291 when it comes out of the condition wait.\<close>

definition at_loop_test :: "nat \<Rightarrow> pool \<Rightarrow> pool" where
  "at_loop_test w p =
     (if threads p ! w = W_CondWait then p\<lparr>waiting_count := waiting_count p - 1\<rparr> else p)"

text \<open>The sum of \<open>f\<close> over a list without its element \<open>i\<close>.\<close>

definition others :: "('a \<Rightarrow> 'b::comm_monoid_add) \<Rightarrow> nat \<Rightarrow> 'a list \<Rightarrow> 'b" where
  "others f i xs = sum_list (map f (take i xs)) + sum_list (map f (drop (Suc i) xs))"



text \<open>A thread that is not in the \<open>do_work\<close> loop of \<open>Wait\<close>.\<close>

fun outside_work_loop :: "caller \<Rightarrow> bool" where
  "outside_work_loop C_TryGetTask = False"
| "outside_work_loop (C_Task st t) = False"
| "outside_work_loop c = True"








text \<open>
  What \<open>Wait\<close> waits for: \<open>shutting_down_\<close> is set, or every worker is inside the
  condition wait of \<open>GetTask\<close> and there is no outstanding task, which by
  \<open>HasOutstandingTasks\<close> above is a queue that is empty or a pool that is not started.
\<close>

definition idle :: "pool \<Rightarrow> bool" where
  "idle p =
     (shutting_down p
      \<or> (list_all (\<lambda>w. w = W_CondWait) (threads p) \<and> (tasks p = [] \<or> \<not> started p)))"

text \<open>The notifications made since an earlier moment \<open>p\<close>.\<close>

definition news :: "pool \<Rightarrow> pool \<Rightarrow> notification list" where
  "news p p' = drop (length (notified p)) (notified p')"

text \<open>The task a worker holds.\<close>

fun holds :: "worker \<Rightarrow> task option" where
  "holds (W_Task st t) = Some t"
| "holds w = None"

subsection \<open>Invariants of the runs\<close>

text \<open>
  Every submitted task is in one place: in the queue, in the hand of a thread that has
  not yet called \<open>Run\<close> on it, in the hand of a thread that has, or finalized.  The
  tasks run are those in the hand of a thread that has called \<open>Run\<close> and those
  finalized by such a thread.
\<close>

definition accounted :: "pool \<Rightarrow> bool" where
  "accounted p =
     (mset (tasks p) + fetched p + begun p + mset (finalized (trace p)) = mset (submitted p))"

definition runs_accounted :: "pool \<Rightarrow> bool" where
  "runs_accounted p = (mset (run_calls (trace p)) = begun p + mset (executed (trace p)))"

text \<open>Past the join the pool has no workers, and the destructor returns with an empty
  queue.\<close>

definition torn_down :: "pool \<Rightarrow> bool" where
  "torn_down p =
     ((lifecycle p \<noteq> Alive \<and> lifecycle p \<noteq> Joining \<longrightarrow> threads p = [])
      \<and> (lifecycle p = Destroyed \<longrightarrow> tasks p = []))"

definition task_inv :: "pool \<Rightarrow> bool" where
  "task_inv p =
     (accounted p \<and> runs_accounted p \<and> torn_down p
      \<and> (distinct (submitted p) \<longrightarrow> Run_before_Finalize (trace p)))"




text \<open>\<open>waiting_count_\<close> is the number of workers inside the condition wait.\<close>

definition counted :: "pool \<Rightarrow> bool" where
  "counted p = (waiting_count p = waiting p)"

text \<open>The workers that hold a task are at most \<open>max_active_workers_\<close>.\<close>

definition within_cap :: "pool \<Rightarrow> bool" where
  "within_cap p = (busy p \<le> max_active_workers p)"

text \<open>The workers \<open>ws\<close> next to the workers \<open>ps\<close> of an earlier moment: a worker that
  holds a task held that task already.\<close>

definition held_since :: "worker list \<Rightarrow> worker list \<Rightarrow> bool" where
  "held_since ps ws =
     (\<forall>w < length ws. holds (ws ! w) \<noteq> None \<longrightarrow>
        w < length ps \<and> holds (ps ! w) = holds (ws ! w))"

text \<open>The workers \<open>ws\<close> next to the workers \<open>ps\<close> of an earlier moment: those that waited
  still wait, and none has left its loop since.\<close>

definition kept :: "worker list \<Rightarrow> worker list \<Rightarrow> bool" where
  "kept ps ws =
     ((ps = [] \<or> length ws = length ps)
      \<and> (\<forall>w < length ps.
            (ps ! w = W_CondWait \<longrightarrow> ws ! w = W_CondWait)
            \<and> (ws ! w = W_Exited \<longrightarrow> ps ! w = W_Exited)))"

text \<open>What holds of a pool \<open>q\<close> reached from the stopped pool \<open>p\<close> while nobody calls
  \<open>StartWorkers\<close> or destroys the pool.\<close>

definition held_back :: "pool \<Rightarrow> pool \<Rightarrow> bool" where
  "held_back p q =
     (\<not> started q \<and> \<not> shutting_down q \<and> dequeued q = dequeued p
      \<and> prefix (tasks p) (tasks q) \<and> kept (threads p) (threads q))"

text \<open>While the destructor has not got past the join, nothing is drained and every
  worker thread ever started is in \<open>threads_\<close>.\<close>

definition quiet_before :: "pool \<Rightarrow> bool" where
  "quiet_before p =
     (lifecycle p = Alive \<or> lifecycle p = Joining \<longrightarrow>
        drained (trace p) = []
        \<and> (\<forall>w. (Worker w, Started) \<in> set (trace p) \<longrightarrow> w < length (threads p)))"

text \<open>Past the join no worker is left, and every worker thread ever started has left
  its loop.\<close>

definition joined_after :: "pool \<Rightarrow> bool" where
  "joined_after p =
     (lifecycle p \<noteq> Alive \<and> lifecycle p \<noteq> Joining \<longrightarrow>
        threads p = []
        \<and> (\<forall>w. (Worker w, Started) \<in> set (trace p) \<longrightarrow> (Worker w, ExitLoop) \<in> set (trace p)))"

text \<open>A worker that has left its loop is in the history as such; once the destructor
  has begun, \<open>shutting_down_\<close> is set.\<close>

definition exits_logged :: "pool \<Rightarrow> bool" where
  "exits_logged p =
     (\<forall>w < length (threads p).
        threads p ! w = W_Exited \<longrightarrow> (Worker w, ExitLoop) \<in> set (trace p))"

definition closing :: "pool \<Rightarrow> bool" where
  "closing p = (lifecycle p \<noteq> Alive \<longrightarrow> shutting_down p)"

definition teardown :: "pool \<Rightarrow> bool" where
  "teardown p =
     (quiet_before p \<and> joined_after p \<and> exits_logged p \<and> closing p
      \<and> drain_after_exit (trace p))"

subsection \<open>Example runs\<close>








text \<open>Two workers are inside \<open>Run\<close> when the cap is set to one.\<close>

definition cut_example :: "event list" where
  "cut_example =
     [E_CreateThreads, E_AddTask 1, E_AddTask 2, E_StartWorkers,
      E_Worker 0, E_Worker 0, E_Worker 1, E_Worker 1, E_SetMaxActiveWorkers 1]"

definition cut_state :: pool where
  "cut_state = projr (run HasOutstandingTasks cut_example (AbstractThreadPool 2 False 0))"

text \<open>After the cut the first worker finishes its task and asks for another.\<close>

definition recovered_example :: "event list" where
  "recovered_example = cut_example @ [E_Worker 0, E_Worker 0, E_Worker 0]"

definition recovered_state :: pool where
  "recovered_state =
     projr (run HasOutstandingTasks recovered_example (AbstractThreadPool 2 False 0))"

text \<open>Two workers, the cap set to one while both are idle, two tasks and an outside
  thread: one worker waits, the other runs task 1 with task 2 queued.\<close>

definition saturated_example :: "event list" where
  "saturated_example =
     [E_CreateThreads, E_SetMaxActiveWorkers 1, E_AddTask 1, E_AddTask 2, E_StartWorkers,
      E_Worker 0, E_Worker 1, E_Worker 1]"

definition saturated_state :: pool where
  "saturated_state =
     projr (run HasOutstandingTasks saturated_example (AbstractThreadPool 2 False 1))"

text \<open>A pool of two workers just created.\<close>

definition two_workers :: pool where
  "two_workers = projr (CreateThreads (AbstractThreadPool 2 False 0))"



text \<open>
  Two workers have fetched tasks 1 and 2 when the pool is stopped.  Then they go on,
  task 3 is added, worker 1 finishes task 2 and asks for a task, and an outside thread
  enters \<open>Wait(do_work = true)\<close> and tries to take a task.
\<close>

definition stop_example :: "event list" where
  "stop_example =
     [E_Worker 0, E_Worker 1, E_Worker 1, E_AddTask 3, E_Worker 1, E_Worker 1, E_Worker 1,
      E_Wait 0 True False, E_Caller 0]"

definition before_stop :: pool where
  "before_stop =
     projr (run HasOutstandingTasks
       [E_CreateThreads, E_StartWorkers, E_AddTask 1, E_AddTask 2, E_Worker 0, E_Worker 1]
       (AbstractThreadPool 2 False 1))"

definition after_stop :: pool where
  "after_stop = projr (run HasOutstandingTasks (E_StopWorkers # stop_example) before_stop)"

text \<open>A pool of one worker that was never started, with task 5 queued, the worker
  waiting and an outside thread entering \<open>Wait\<close>.\<close>

definition stopped_example :: "event list" where
  "stopped_example = [E_CreateThreads, E_AddTask 5, E_Worker 0, E_Wait 0 False False]"

definition stopped_state :: pool where
  "stopped_state =
     projr (run HasOutstandingTasks stopped_example (AbstractThreadPool 1 False 1))"

text \<open>
  A started pool with one worker and a cap of zero: the worker waits, task 1 is added,
  the worker is signalled, finds the cap saturated and waits again, and a thread calls
  \<open>Wait(do_work = false)\<close> and blocks.  Then a second thread calls \<open>Wait(do_work = true)\<close>,
  takes task 1, runs it, finds no other task and returns from \<open>Wait\<close>.
\<close>

definition unwoken_example :: "event list" where
  "unwoken_example =
     [E_CreateThreads, E_SetMaxActiveWorkers 0, E_StartWorkers, E_Worker 0, E_AddTask 1,
      E_Worker 0, E_Wait 0 False False, E_Caller 0]"

definition unwoken_before :: pool where
  "unwoken_before =
     projr (run HasOutstandingTasks unwoken_example (AbstractThreadPool 1 False 2))"

definition unwoken_rest :: "event list" where
  "unwoken_rest =
     [E_Wait 1 True False, E_Caller 1, E_Caller 1, E_Caller 1, E_Caller 1, E_Caller 1,
      E_Caller 1]"

definition unwoken_after :: pool where
  "unwoken_after = projr (run HasOutstandingTasks unwoken_rest unwoken_before)"

text \<open>
  A started pool of two workers and no task: a thread calls \<open>Wait\<close> and blocks, the first
  worker goes to wait, then the second.
\<close>

definition idle_example :: "event list" where
  "idle_example = [E_CreateThreads, E_StartWorkers, E_Wait 0 False False, E_Caller 0, E_Worker 0]"

definition idle_last_worker :: pool where
  "idle_last_worker =
     projr (run HasOutstandingTasks idle_example (AbstractThreadPool 2 False 1))"

definition idle_reached :: pool where
  "idle_reached = projr (step HasOutstandingTasks (E_Worker 1) idle_last_worker)"

text \<open>
  One worker is inside \<open>Run\<close> of task 1 when the destructor begins; task 3 is added
  while the destructor waits for the worker; the destructor drains tasks 2 and 3.
\<close>

definition teardown_example :: "event list" where
  "teardown_example =
     [E_CreateThreads, E_AddTask 1, E_AddTask 2, E_StartWorkers, E_Worker 0, E_Worker 0,
      E_Destructor, E_AddTask 3, E_Worker 0, E_Worker 0, E_Worker 0,
      E_Destructor, E_Destructor, E_Destructor, E_Destructor, E_Destructor, E_Destructor]"

definition teardown_state :: pool where
  "teardown_state =
     projr (run HasOutstandingTasks teardown_example (AbstractThreadPool 1 False 0))"

text \<open>
  A thread is in the loop of \<open>Wait(do_work = true)\<close> when the destructor begins.  The
  worker leaves its loop and is joined, the destructor takes task 1 out of the queue,
  and the thread takes task 2 and calls \<open>Run\<close> on it before the destructor calls
  \<open>Finalize\<close> on task 1.
\<close>

definition race_example :: "event list" where
  "race_example =
     [E_CreateThreads, E_AddTask 1, E_AddTask 2, E_StartWorkers, E_Wait 0 True False,
      E_Destructor, E_Worker 0, E_Destructor, E_Destructor, E_Caller 0, E_Caller 0]"

definition race_state :: pool where
  "race_state = projr (run HasOutstandingTasks race_example (AbstractThreadPool 1 False 1))"

section \<open>The barrier\<close>

text \<open>
  barrier.cc is not among the sources; barrier\_test.cc and the creation barrier of the
  pool only call it.  The definitions of this section follow the contract of the spec
  (section 4.1) and are steps of an interleaving like those of the pool: a thread's code
  under the barrier's lock is one step.
\<close>

text \<open>
  Modelled from the spec: the threads that use the barrier of barrier.cc, "any number of
  threads may block on the same instance simultaneously".  A thread is outside a
  waiting call, blocked in it (in the form with a timeout or not), or woken and not yet
  running again.
\<close>

datatype party = Outside | Blocked bool | Woken bool

text \<open>
  Modelled from the spec: the barrier of barrier.cc, "a signed counter protected by a
  lock and a condition variable".  Next to \<open>count\<close>: the threads that use the barrier,
  and every return from a waiting call with its "timed out" indicator.
\<close>

record barrier =
  b_count :: int
  b_parties :: "party list"
  b_returns :: "(nat \<times> bool) list"

text \<open>Modelled from the spec: the fatal error of \<open>init\<close> of barrier.cc; and the answer to
  an event of a thread that cannot move.\<close>

datatype b_fault = Init_while_blocked | B_not_enabled

text \<open>Modelled from the spec: the constructor \<open>Barrier(count)\<close>, for \<open>m\<close> threads.\<close>

definition Barrier :: "int \<Rightarrow> nat \<Rightarrow> barrier" where
  "Barrier n m = \<lparr>b_count = n, b_parties = replicate m Outside, b_returns = []\<rparr>"

text \<open>Modelled from the spec: the wake-up of a thread blocked on the barrier of
  barrier.cc.\<close>

fun wake :: "party \<Rightarrow> party" where
  "wake (Blocked timed) = Woken timed"
| "wake x = x"

text \<open>
  Modelled from the spec: the shared routine "adjust count, wake-if-zero" of barrier.cc:
  "any mutation that brings \<open>count\<close> to exactly zero must wake all parties currently
  blocked on the barrier".
\<close>

definition set_count :: "int \<Rightarrow> barrier \<Rightarrow> barrier" where
  "set_count c b =
     (if c = 0 then b\<lparr>b_count := c, b_parties := map wake (b_parties b)\<rparr>
      else b\<lparr>b_count := c\<rparr>)"

text \<open>
  Modelled from the spec: \<open>init(count)\<close> of barrier.cc "(re)arms the barrier to \<open>count\<close>.
  Precondition: no thread currently blocked on this barrier"; a call that breaks it is
  "a fatal programming error".
\<close>

definition b_init :: "int \<Rightarrow> barrier \<Rightarrow> b_fault + barrier" where
  "b_init c b =
     (if list_all (\<lambda>x. x = Outside) (b_parties b) then Inr (set_count c b)
      else Inl Init_while_blocked)"

text \<open>
  Modelled from the spec: \<open>increment(delta)\<close> of barrier.cc, the form that does not block:
  "\<open>count += delta\<close>; if the new \<open>count == 0\<close>, wake all blocked parties; returns
  immediately"; \<open>pass\<close> is this call with \<open>delta == -1\<close>.
\<close>

definition b_increment :: "int \<Rightarrow> barrier \<Rightarrow> barrier" where
  "b_increment delta b = set_count (b_count b + delta) b"

text \<open>Modelled from the spec: \<open>pass\<close> of barrier.cc, "always called with \<open>delta == -1\<close>".\<close>

definition b_pass :: "barrier \<Rightarrow> barrier" where
  "b_pass b = b_increment (- 1) b"

text \<open>Modelled from the spec: a waiting call of barrier.cc returns, with or without the
  "timed out" indicator.\<close>

definition b_return :: "nat \<Rightarrow> bool \<Rightarrow> barrier \<Rightarrow> barrier" where
  "b_return i timed_out b =
     b\<lparr>b_parties := (b_parties b)[i := Outside], b_returns := b_returns b @ [(i, timed_out)]\<rparr>"

text \<open>
  Modelled from the spec: the test of the waiting calls of barrier.cc: "block the calling
  thread while \<open>count > 0\<close>, waking when the condition is signaled; returns when
  \<open>count <= 0\<close>".
\<close>

definition b_wait_or_return :: "nat \<Rightarrow> bool \<Rightarrow> barrier \<Rightarrow> barrier" where
  "b_wait_or_return i timed b =
     (if 0 < b_count b then b\<lparr>b_parties := (b_parties b)[i := Blocked timed]\<rparr>
      else b_return i False b)"

text \<open>
  Modelled from the spec: \<open>increment_and_wait(delta)\<close> of barrier.cc, "\<open>count += delta\<close>,
  then block the calling thread while \<open>count > 0\<close>", and the form with a timeout,
  "identical, but also wakes and returns a timed out indicator if \<open>timeout\<close> elapses
  before \<open>count\<close> reaches zero".  \<open>wait()\<close> is \<open>increment_and_wait(-1)\<close>.
\<close>

definition b_increment_and_wait :: "nat \<Rightarrow> int \<Rightarrow> bool \<Rightarrow> barrier \<Rightarrow> b_fault + barrier" where
  "b_increment_and_wait i delta timed b =
     (if length (b_parties b) \<le> i \<or> b_parties b ! i \<noteq> Outside then Inl B_not_enabled
      else Inr (b_wait_or_return i timed (set_count (b_count b + delta) b)))"

text \<open>Modelled from the spec: a woken thread of barrier.cc tests \<open>count\<close> again.\<close>

definition b_resume :: "nat \<Rightarrow> barrier \<Rightarrow> b_fault + barrier" where
  "b_resume i b =
     (if length (b_parties b) \<le> i then Inl B_not_enabled
      else case b_parties b ! i of
          Woken timed \<Rightarrow> Inr (b_wait_or_return i timed b)
        | _ \<Rightarrow> Inl B_not_enabled)"

text \<open>
  Modelled from the spec: the timeout of a thread of barrier.cc blocked in the timed
  form elapses; the call returns the timed out indicator and "does not retract the
  already-applied \<open>delta\<close>".
\<close>

definition b_timeout :: "nat \<Rightarrow> barrier \<Rightarrow> b_fault + barrier" where
  "b_timeout i b =
     (if length (b_parties b) \<le> i then Inl B_not_enabled
      else case b_parties b ! i of
          Blocked True \<Rightarrow> Inr (b_return i True b)
        | _ \<Rightarrow> Inl B_not_enabled)"

text \<open>The calls and moves of the threads, and schedules of them.\<close>

datatype b_event =
    B_Init int
  | B_Increment int
  | B_Pass
  | B_Wait nat
  | B_IncrementAndWait nat int
  | B_IncrementTimed nat int
  | B_Resume nat
  | B_Timeout nat

fun b_step :: "b_event \<Rightarrow> barrier \<Rightarrow> b_fault + barrier" where
  "b_step (B_Init c) b = b_init c b"
| "b_step (B_Increment delta) b = Inr (b_increment delta b)"
| "b_step B_Pass b = Inr (b_pass b)"
| "b_step (B_Wait i) b = b_increment_and_wait i (- 1) False b"
| "b_step (B_IncrementAndWait i delta) b = b_increment_and_wait i delta False b"
| "b_step (B_IncrementTimed i delta) b = b_increment_and_wait i delta True b"
| "b_step (B_Resume i) b = b_resume i b"
| "b_step (B_Timeout i) b = b_timeout i b"

fun b_run :: "b_event list \<Rightarrow> barrier \<Rightarrow> b_fault + barrier" where
  "b_run [] b = Inr b"
| "b_run (e # es) b = (case b_step e b of Inl f \<Rightarrow> Inl f | Inr b' \<Rightarrow> b_run es b')"

text \<open>What an event adds to \<open>count\<close>, and the net number of decrements of a schedule.\<close>

fun delta_of :: "b_event \<Rightarrow> int" where
  "delta_of (B_Increment delta) = delta"
| "delta_of B_Pass = - 1"
| "delta_of (B_Wait i) = - 1"
| "delta_of (B_IncrementAndWait i delta) = delta"
| "delta_of (B_IncrementTimed i delta) = delta"
| "delta_of e = 0"

definition net_decrements :: "b_event list \<Rightarrow> int" where
  "net_decrements es = - sum_list (map delta_of es)"

fun is_init :: "b_event \<Rightarrow> bool" where
  "is_init (B_Init c) = True"
| "is_init e = False"

text \<open>The returns of thread \<open>i\<close> among the returns \<open>rs\<close>, and the returns made since an
  earlier moment \<open>b\<close>.\<close>

definition returns_of :: "nat \<Rightarrow> (nat \<times> bool) list \<Rightarrow> (nat \<times> bool) list" where
  "returns_of i rs = filter (\<lambda>r. fst r = i) rs"

definition b_news :: "barrier \<Rightarrow> barrier \<Rightarrow> (nat \<times> bool) list" where
  "b_news b b' = drop (length (b_returns b)) (b_returns b')"

text \<open>No thread is blocked while \<open>count\<close> is zero.\<close>

definition released_at_zero :: "barrier \<Rightarrow> bool" where
  "released_at_zero b =
     (b_count b = 0 \<longrightarrow> list_all (\<lambda>x. x \<noteq> Blocked True \<and> x \<noteq> Blocked False) (b_parties b))"

subsection \<open>Example runs of the barrier\<close>

text \<open>Three threads and a barrier of three: two threads wait, then the third.\<close>

definition rendezvous_start :: "b_event list" where
  "rendezvous_start = [B_Wait 0, B_Wait 1]"

definition rendezvous_waiting :: barrier where
  "rendezvous_waiting = projr (b_run rendezvous_start (Barrier 3 3))"

definition rendezvous_met :: barrier where
  "rendezvous_met = projr (b_run (rendezvous_start @ [B_Wait 2]) (Barrier 3 3))"

text \<open>The pattern of \<open>CheckPass\<close> in barrier\_test.cc, with two threads that pass: the
  barrier is made with zero, one thread passes, the main thread calls the waiting
  \<open>increment\<close> with two, and the other thread passes.\<close>

definition pass_start :: "b_event list" where
  "pass_start = [B_Pass, B_IncrementAndWait 0 2]"

definition pass_waiting :: barrier where
  "pass_waiting = projr (b_run pass_start (Barrier 0 1))"

definition pass_met :: barrier where
  "pass_met = projr (b_run [B_Pass] pass_waiting)"

text \<open>A barrier of zero used to sleep: the timed \<open>increment\<close> of one, then its
  timeout.\<close>

definition sleeping :: barrier where
  "sleeping = projr (b_step (B_IncrementTimed 0 1) (Barrier 0 1))"

definition slept :: barrier where
  "slept = projr (b_step (B_Timeout 0) sleeping)"

section \<open>How the steps change the pool\<close>

lemma notify_same [simp]:
  "tasks (notify x p) = tasks p" "threads (notify x p) = threads p"
  "started (notify x p) = started p" "shutting_down (notify x p) = shutting_down p"
  "waiting_count (notify x p) = waiting_count p"
  "max_active_workers (notify x p) = max_active_workers p"
  "create_peers (notify x p) = create_peers p" "lifecycle (notify x p) = lifecycle p"
  "callers (notify x p) = callers p" "submitted (notify x p) = submitted p"
  "dequeued (notify x p) = dequeued p" "trace (notify x p) = trace p"
  "notified (notify x p) = notified p @ [x]"
  by (simp_all add: notify_def)

lemma run_append:
  "run H (es @ es') p = (case run H es p of Inl f \<Rightarrow> Inl f | Inr p' \<Rightarrow> run H es' p')"
  by (induction es arbitrary: p) (auto split: sum.splits)

lemma run_snoc:
  "run H (es @ [e]) p = Inr s' \<longleftrightarrow> (\<exists>s. run H es p = Inr s \<and> step H e s = Inr s')"
  by (auto simp: run_append split: sum.splits)

lemma run_invariant:
  assumes stp: "\<And>e p p'. e \<in> set es \<Longrightarrow> step H e p = Inr p' \<Longrightarrow> I p \<Longrightarrow> I p'"
    and "I p0" and "run H es p0 = Inr s"
  shows "I s"
  using assms
proof (induction es arbitrary: p0)
  case Nil
  then show ?case by simp
next
  case (Cons e es)
  from Cons.prems(3) obtain p1 where s1: "step H e p0 = Inr p1" and r: "run H es p1 = Inr s"
    by (auto split: sum.splits)
  have "I p1" using Cons.prems(1)[of e p0 p1] s1 Cons.prems(2) by simp
  moreover have "\<And>e' p p'. e' \<in> set es \<Longrightarrow> step H e' p = Inr p' \<Longrightarrow> I p \<Longrightarrow> I p'"
    using Cons.prems(1) by (meson list.set_intros(2))
  ultimately show ?case using Cons.IH[of p1] r by blast
qed

lemma worker_stepE:
  assumes "worker_step H w p = Inr p'"
  obtains
    (exit) "w < length (threads p)" "threads p ! w = W_GetTask \<or> threads p ! w = W_CondWait"
      "shutting_down p"
      "p' = (at_loop_test w p)\<lparr>threads := (threads p)[w := W_Exited],
                               trace := trace p @ [(Worker w, ExitLoop)]\<rparr>"
  | (pop) t ts where "w < length (threads p)"
      "threads p ! w = W_GetTask \<or> threads p ! w = W_CondWait"
      "\<not> shutting_down p" "H (at_loop_test w p)" "tasks p = t # ts"
      "length (threads p) - waiting_count (at_loop_test w p) \<le> max_active_workers p"
      "p' = (at_loop_test w p)\<lparr>tasks := ts, threads := (threads p)[w := W_Task Fetched t],
                               dequeued := dequeued p @ [(Worker w, t)]\<rparr>"
  | (wait) "w < length (threads p)" "threads p ! w = W_GetTask \<or> threads p ! w = W_CondWait"
      "\<not> shutting_down p"
      "\<not> (length (threads p) - waiting_count (at_loop_test w p) \<le> max_active_workers p
          \<and> H (at_loop_test w p))"
      "p' = (at_loop_test w p)\<lparr>waiting_count := waiting_count (at_loop_test w p) + 1,
              threads := (threads p)[w := W_CondWait],
              notified := notified p @
                (if waiting_count (at_loop_test w p) + 1 = length (threads p)
                    \<and> \<not> H ((at_loop_test w p)\<lparr>waiting_count :=
                                 waiting_count (at_loop_test w p) + 1\<rparr>)
                 then [Broadcast completion_condition] else [])\<rparr>"
  | (run) t where "w < length (threads p)" "threads p ! w = W_Task Fetched t"
      "p' = p\<lparr>threads := (threads p)[w := W_Task Running t],
               trace := trace p @ [(Worker w, Run t)]\<rparr>"
  | (ran) t where "w < length (threads p)" "threads p ! w = W_Task Running t"
      "p' = p\<lparr>threads := (threads p)[w := W_Task Ran t]\<rparr>"
  | (fin) t where "w < length (threads p)" "threads p ! w = W_Task Ran t"
      "p' = p\<lparr>threads := (threads p)[w := W_GetTask],
               trace := trace p @ [(Worker w, Finalize t)]\<rparr>"
proof (cases "w < length (threads p)")
  case False
  then show ?thesis using assms by (simp add: worker_step_def)
next
  case lt: True
  show ?thesis
  proof (cases "threads p ! w")
    case W_GetTask
    then show ?thesis using assms lt exit pop wait
      by (auto simp: worker_step_def worker_continues_def GetTask_def TryGetTaskLocked_def
          IsShuttingDown_def GetThreadCount_def at_loop_test_def set_worker_def
          record_action_def record_pop_def Let_def notify_def
          split: if_splits sum.splits list.splits option.splits prod.splits get_task.splits)
  next
    case W_CondWait
    then show ?thesis using assms lt exit pop wait
      by (auto simp: worker_step_def worker_continues_def GetTask_def GetTask_resumed_def
          TryGetTaskLocked_def
          IsShuttingDown_def GetThreadCount_def at_loop_test_def set_worker_def
          record_action_def record_pop_def Let_def notify_def
          split: if_splits sum.splits list.splits option.splits prod.splits get_task.splits)
  next
    case (W_Task st t)
    then show ?thesis using assms lt run ran fin
      by (cases st) (auto simp: worker_step_def set_worker_def record_action_def)
  next
    case W_Exited
    then show ?thesis using assms lt by (simp add: worker_step_def)
  qed
qed

lemma caller_stepE:
  assumes "caller_step H c p = Inr p'"
  obtains
    (pop) t ts where "c < length (callers p)" "callers p ! c = C_TryGetTask"
      "lifecycle p \<noteq> Destroyed" "H p" "tasks p = t # ts"
      "p' = p\<lparr>tasks := ts, callers := (callers p)[c := C_Task Fetched t],
               dequeued := dequeued p @ [(Caller c, t)]\<rparr>"
  | (none) "c < length (callers p)" "callers p ! c = C_TryGetTask"
      "lifecycle p \<noteq> Destroyed" "\<not> H p"
      "p' = p\<lparr>callers := (callers p)[c := C_Check]\<rparr>"
  | (run) t where "c < length (callers p)" "callers p ! c = C_Task Fetched t"
      "p' = p\<lparr>callers := (callers p)[c := C_Task Running t],
               trace := trace p @ [(Caller c, Run t)]\<rparr>"
  | (ran) t where "c < length (callers p)" "callers p ! c = C_Task Running t"
      "p' = p\<lparr>callers := (callers p)[c := C_Task Ran t]\<rparr>"
  | (fin) t where "c < length (callers p)" "callers p ! c = C_Task Ran t"
      "p' = p\<lparr>callers := (callers p)[c := C_TryGetTask],
               trace := trace p @ [(Caller c, Finalize t)]\<rparr>"
  | (block) "c < length (callers p)" "callers p ! c = C_Check \<or> callers p ! c = C_CondWait"
      "lifecycle p \<noteq> Destroyed" "Wait_blocks H p"
      "p' = p\<lparr>callers := (callers p)[c := C_CondWait]\<rparr>"
  | (return) "c < length (callers p)" "callers p ! c = C_Check \<or> callers p ! c = C_CondWait"
      "lifecycle p \<noteq> Destroyed" "\<not> Wait_blocks H p"
      "p' = p\<lparr>callers := (callers p)[c := C_Outside]\<rparr>"
proof (cases "c < length (callers p)")
  case False
  then show ?thesis using assms by (simp add: caller_step_def)
next
  case lt: True
  show ?thesis
  proof (cases "callers p ! c")
    case C_Outside
    then show ?thesis using assms lt by (simp add: caller_step_def)
  next
    case C_TryGetTask
    then show ?thesis using assms lt pop none
      by (auto simp: caller_step_def TryGetTask_def TryGetTaskLocked_def set_caller_def
          record_pop_def split: if_splits list.splits)
  next
    case (C_Task st t)
    then show ?thesis using assms lt run ran fin
      by (cases st) (auto simp: caller_step_def set_caller_def record_action_def)
  next
    case C_Check
    then show ?thesis using assms lt block return
      by (auto simp: caller_step_def Wait_check_def set_caller_def split: if_splits)
  next
    case C_CondWait
    then show ?thesis using assms lt block return
      by (auto simp: caller_step_def Wait_check_def set_caller_def split: if_splits)
  qed
qed

lemma Wait_enterE:
  assumes "Wait_enter c do_work may_hold_locks p = Inr p'"
  obtains "c < length (callers p)" "callers p ! c = C_Outside" "lifecycle p \<noteq> Destroyed"
    "p' = p\<lparr>callers := (callers p)[c := if do_work then C_TryGetTask else C_Check]\<rparr>"
    "do_work \<longrightarrow> \<not> create_peers p"
  using assms by (auto simp: Wait_enter_def set_caller_def split: if_splits)

lemma destructor_stepE:
  assumes "destructor_step p = Inr p'"
  obtains
    (shutdown) "lifecycle p = Alive"
      "p' = p\<lparr>shutting_down := True, lifecycle := Joining,
               notified := notified p @ [Broadcast task_queue_condition,
                                         Broadcast completion_condition]\<rparr>"
  | (join) "lifecycle p = Joining" "list_all (\<lambda>w. w = W_Exited) (threads p)"
      "p' = p\<lparr>threads := [], lifecycle := Draining\<rparr>"
  | (pop) t ts where "lifecycle p = Draining" "tasks p = t # ts"
      "p' = p\<lparr>tasks := ts, lifecycle := Finalizing t,
               dequeued := dequeued p @ [(Destructor, t)]\<rparr>"
  | (finished) "lifecycle p = Draining" "tasks p = []" "p' = p\<lparr>lifecycle := Destroyed\<rparr>"
  | (fin) t where "lifecycle p = Finalizing t"
      "p' = p\<lparr>lifecycle := Draining, trace := trace p @ [(Destructor, Finalize t)]\<rparr>"
  using assms
  by (cases "lifecycle p")
     (auto simp: destructor_step_def DeleteThreads_locked_def RemoveAllTasks_locked_def
       record_pop_def record_action_def notify_def split: if_splits list.splits)

lemma spawn_same [simp]:
  "tasks (spawn p) = tasks p" "started (spawn p) = started p"
  "shutting_down (spawn p) = shutting_down p" "waiting_count (spawn p) = waiting_count p"
  "max_active_workers (spawn p) = max_active_workers p"
  "create_peers (spawn p) = create_peers p" "lifecycle (spawn p) = lifecycle p"
  "callers (spawn p) = callers p" "submitted (spawn p) = submitted p"
  "dequeued (spawn p) = dequeued p" "notified (spawn p) = notified p"
  by (induction p rule: spawn.induct; subst spawn.simps; simp add: GetThreadCount_def)+

lemma threads_spawn:
  "threads (spawn p) =
     threads p @ replicate (max_active_workers p - length (threads p)) W_GetTask"
proof (induction p rule: spawn.induct)
  case (1 p)
  show ?case
  proof (cases "GetThreadCount p < max_active_workers p")
    case True
    then have "max_active_workers p - length (threads p)
        = Suc (max_active_workers p - Suc (length (threads p)))"
      by (simp add: GetThreadCount_def)
    then show ?thesis using 1 True
      by (subst spawn.simps) (simp add: GetThreadCount_def replicate_app_Cons_same)
  next
    case False
    then show ?thesis by (subst spawn.simps) (simp add: GetThreadCount_def)
  qed
qed

lemma trace_spawn:
  "trace (spawn p) =
     trace p @ map (\<lambda>i. (Worker i, Started)) [length (threads p) ..< max_active_workers p]"
proof (induction p rule: spawn.induct)
  case (1 p)
  show ?case
  proof (cases "GetThreadCount p < max_active_workers p")
    case True
    then show ?thesis using 1
      by (subst spawn.simps) (simp add: GetThreadCount_def upt_conv_Cons)
  next
    case False
    then show ?thesis by (subst spawn.simps) (simp add: GetThreadCount_def)
  qed
qed

lemma stepE:
  assumes "step H e p = Inr p'"
  obtains
    (add) t where "e = E_AddTask t" "lifecycle p \<noteq> Destroyed"
      "p' = p\<lparr>tasks := tasks p @ [t], submitted := submitted p @ [t],
               notified := notified p @
                 (if started p \<and> waiting_count p \<noteq> 0
                  then [Signal task_queue_condition] else [])\<rparr>"
  | (create) "e = E_CreateThreads" "lifecycle p = Alive" "threads p = []"
      "p' = spawn (p\<lparr>shutting_down := False\<rparr>)"
  | (setmax) m where "e = E_SetMaxActiveWorkers m" "lifecycle p \<noteq> Destroyed"
      "m \<le> length (threads p)" "p' = p\<lparr>max_active_workers := m\<rparr>"
  | (start) "e = E_StartWorkers" "lifecycle p \<noteq> Destroyed"
      "p' = p\<lparr>started := True, notified := notified p @ [Broadcast task_queue_condition]\<rparr>"
  | (stop) "e = E_StopWorkers" "lifecycle p \<noteq> Destroyed" "p' = p\<lparr>started := False\<rparr>"
  | (enter) c do_work may_hold_locks where "e = E_Wait c do_work may_hold_locks"
      "Wait_enter c do_work may_hold_locks p = Inr p'"
  | (caller) c where "e = E_Caller c" "caller_step H c p = Inr p'"
  | (worker) w where "e = E_Worker w" "worker_step H w p = Inr p'"
  | (destructor) "e = E_Destructor" "destructor_step p = Inr p'"
  using assms
  by (cases e)
     (auto simp: step_def AddTask_def CreateThreads_def SetMaxActiveWorkers_def
       StartWorkers_def StopWorkers_def GetThreadCount_def notify_def Let_def
       split: if_splits)

section \<open>Misuse of the lifecycle calls\<close>

text \<open>
  C8.  A call \<open>SetMaxActiveWorkers(m)\<close> with \<open>m\<close> above the number of workers fails the
  \<open>CHECK_LE\<close> of line 244 and, when \<open>m\<close> is at most that number, cannot fail it and sets
  the cap; a call of \<open>CreateThreads\<close> on a pool that has workers fails the \<open>CHECK\<close> of
  line 200.  A failed \<open>CHECK\<close> ends the run: no later event of a schedule is executed.
\<close>

theorem lifecycle_misuse_is_fatal:
  "(GetThreadCount p < m \<longrightarrow> SetMaxActiveWorkers m p = Inl CHECK_LE_max_workers)
   \<and> (m \<le> GetThreadCount p \<longrightarrow>
        SetMaxActiveWorkers m p = Inr (p\<lparr>max_active_workers := m\<rparr>))
   \<and> (threads p \<noteq> [] \<longrightarrow> CreateThreads p = Inl CHECK_threads_empty)
   \<and> (GetThreadCount p < m \<and> lifecycle p \<noteq> Destroyed \<longrightarrow>
        run H (E_SetMaxActiveWorkers m # es) p = Inl CHECK_LE_max_workers)
   \<and> (threads p \<noteq> [] \<and> lifecycle p = Alive \<longrightarrow>
        run H (E_CreateThreads # es) p = Inl CHECK_threads_empty)"
  by (simp add: SetMaxActiveWorkers_def CreateThreads_def step_def)

text \<open>On a pool of two workers: a cap of three is refused, a cap of one is set, and a
  second \<open>CreateThreads\<close> is refused; the rest of the schedule is not run.\<close>

theorem lifecycle_misuse_is_fatal_witness:
  "GetThreadCount two_workers < 3 \<and> 1 \<le> GetThreadCount two_workers
   \<and> threads two_workers \<noteq> [] \<and> lifecycle two_workers = Alive
   \<and> SetMaxActiveWorkers 3 two_workers = Inl CHECK_LE_max_workers
   \<and> SetMaxActiveWorkers 1 two_workers = Inr (two_workers\<lparr>max_active_workers := 1\<rparr>)
   \<and> CreateThreads two_workers = Inl CHECK_threads_empty
   \<and> run HasOutstandingTasks [E_SetMaxActiveWorkers 3, E_StartWorkers] two_workers
       = Inl CHECK_LE_max_workers
   \<and> run HasOutstandingTasks [E_CreateThreads, E_StartWorkers] two_workers
       = Inl CHECK_threads_empty"
proof -
  have t: "threads two_workers = [W_GetTask, W_GetTask]" by code_simp
  have l: "lifecycle two_workers = Alive" by code_simp
  have n: "GetThreadCount two_workers = 2"
    by (simp add: GetThreadCount_def t)
  from n have a: "GetThreadCount two_workers < 3" and b: "1 \<le> GetThreadCount two_workers"
    by simp_all
  from t have c: "threads two_workers \<noteq> []" by simp
  from l have d: "lifecycle two_workers \<noteq> Destroyed" by simp
  show ?thesis
    using a b c d l
      lifecycle_misuse_is_fatal [of two_workers 3 HasOutstandingTasks "[E_StartWorkers]"]
      lifecycle_misuse_is_fatal [of two_workers 1 HasOutstandingTasks "[E_StartWorkers]"]
    by simp
qed

section \<open>Where the tasks are\<close>

lemma trace_append [simp]:
  "run_calls (a @ b) = run_calls a @ run_calls b" "finalized (a @ b) = finalized a @ finalized b"
  "drained (a @ b) = drained a @ drained b" "executed (a @ b) = executed a @ executed b"
  by (simp_all add: run_calls_def finalized_def drained_def executed_def)

lemma trace_Nil [simp]:
  "run_calls [] = []" "finalized [] = []" "drained [] = []" "executed [] = []"
  by (simp_all add: run_calls_def finalized_def drained_def executed_def)

lemma trace_single [simp]:
  "run_calls [x] = run_of x" "finalized [x] = finalize_of x"
  "drained [x] = drain_of x" "executed [x] = execute_of x"
  by (simp_all add: run_calls_def finalized_def drained_def executed_def)

lemma trace_Started [simp]:
  "run_calls (map (\<lambda>i. (Worker i, Started)) is) = []"
  "finalized (map (\<lambda>i. (Worker i, Started)) is) = []"
  "drained (map (\<lambda>i. (Worker i, Started)) is) = []"
  "executed (map (\<lambda>i. (Worker i, Started)) is) = []"
  by (induction "is") (simp_all add: run_calls_def finalized_def drained_def executed_def)

lemma exited_hold_nothing:
  "list_all (\<lambda>w. w = W_Exited) ws \<Longrightarrow>
     sum_list (map w_fetched ws) = {#} \<and> sum_list (map w_begun ws) = {#}"
  by (induction ws) auto

lemma fresh_hold_nothing [simp]: "sum_list (replicate n ({#} :: task multiset)) = {#}"
  by (induction n) auto

lemma sum_list_one_out:
  fixes f :: "'a \<Rightarrow> 'b::comm_monoid_add"
  assumes "i < length xs"
  shows "sum_list (map f xs) = f (xs ! i) + others f i xs"
    and "sum_list (map f (xs[i := y])) = f y + others f i xs"
proof -
  have "xs = take i xs @ xs ! i # drop (Suc i) xs"
    using assms by (rule id_take_nth_drop)
  then have "sum_list (map f xs) = sum_list (map f (take i xs @ xs ! i # drop (Suc i) xs))"
    by simp
  then show "sum_list (map f xs) = f (xs ! i) + others f i xs"
    by (simp add: others_def ac_simps)
  have "xs[i := y] = take i xs @ y # drop (Suc i) xs"
    using assms by (rule upd_conv_take_nth_drop)
  then show "sum_list (map f (xs[i := y])) = f y + others f i xs"
    by (simp add: others_def ac_simps)
qed

lemma worker_moves:
  assumes "w < length (threads p)"
  shows "sum_list (map w_fetched (threads p)) = w_fetched (threads p ! w) + others w_fetched w (threads p)"
    and "sum_list (map w_fetched ((threads p)[w := x])) = w_fetched x + others w_fetched w (threads p)"
    and "sum_list (map w_begun (threads p)) = w_begun (threads p ! w) + others w_begun w (threads p)"
    and "sum_list (map w_begun ((threads p)[w := x])) = w_begun x + others w_begun w (threads p)"
  using assms by (rule sum_list_one_out)+

lemma caller_moves:
  assumes "c < length (callers p)"
  shows "sum_list (map c_fetched (callers p)) = c_fetched (callers p ! c) + others c_fetched c (callers p)"
    and "sum_list (map c_fetched ((callers p)[c := x])) = c_fetched x + others c_fetched c (callers p)"
    and "sum_list (map c_begun (callers p)) = c_begun (callers p ! c) + others c_begun c (callers p)"
    and "sum_list (map c_begun ((callers p)[c := x])) = c_begun x + others c_begun c (callers p)"
  using assms by (rule sum_list_one_out)+

lemma accounted_worker:
  assumes "worker_step H w p = Inr p'" "accounted p"
  shows "accounted p'"
  using assms(1)
proof (cases rule: worker_stepE)
  case exit
  then show ?thesis using assms(2)
    by (auto simp: accounted_def fetched_def begun_def at_loop_test_def worker_moves)
next
  case (pop t ts)
  then show ?thesis using assms(2)
    by (auto simp: accounted_def fetched_def begun_def at_loop_test_def worker_moves)
next
  case wait
  then show ?thesis using assms(2)
    by (auto simp: accounted_def fetched_def begun_def at_loop_test_def worker_moves)
next
  case (run t)
  then show ?thesis using assms(2)
    by (auto simp: accounted_def fetched_def begun_def worker_moves)
next
  case (ran t)
  then show ?thesis using assms(2)
    by (auto simp: accounted_def fetched_def begun_def worker_moves)
next
  case (fin t)
  then show ?thesis using assms(2)
    by (auto simp: accounted_def fetched_def begun_def worker_moves)
qed

lemma accounted_caller:
  assumes "caller_step H c p = Inr p'" "accounted p"
  shows "accounted p'"
  using assms(1)
  by (cases rule: caller_stepE)
     (use assms(2) in \<open>auto simp: accounted_def fetched_def begun_def caller_moves\<close>)

lemma accounted_destructor:
  assumes "destructor_step p = Inr p'" "accounted p"
  shows "accounted p'"
  using assms(1)
  by (cases rule: destructor_stepE)
     (use assms(2) exited_hold_nothing [of "threads p"] in
       \<open>auto simp: accounted_def fetched_def begun_def\<close>)

lemma accounted_step:
  assumes "step H e p = Inr p'" "accounted p"
  shows "accounted p'"
  using assms(1)
proof (cases rule: stepE)
  case (add t)
  then show ?thesis using assms(2) by (simp add: accounted_def fetched_def begun_def)
next
  case create
  then show ?thesis using assms(2)
    by (simp add: accounted_def fetched_def begun_def threads_spawn trace_spawn)
next
  case (enter c do_work may_hold_locks)
  from enter(2) show ?thesis
    by (cases rule: Wait_enterE)
       (use assms(2) in \<open>auto simp: accounted_def fetched_def begun_def caller_moves\<close>)
next
  case (caller c)
  then show ?thesis using assms(2) accounted_caller by blast
next
  case (worker w)
  then show ?thesis using assms(2) accounted_worker by blast
next
  case destructor
  then show ?thesis using assms(2) accounted_destructor by blast
qed (use assms(2) in \<open>simp_all add: accounted_def fetched_def begun_def\<close>)

lemma runs_accounted_worker:
  assumes "worker_step H w p = Inr p'" "runs_accounted p"
  shows "runs_accounted p'"
  using assms(1)
  by (cases rule: worker_stepE)
     (use assms(2) in \<open>auto simp: runs_accounted_def begun_def at_loop_test_def worker_moves\<close>)

lemma runs_accounted_caller:
  assumes "caller_step H c p = Inr p'" "runs_accounted p"
  shows "runs_accounted p'"
  using assms(1)
  by (cases rule: caller_stepE)
     (use assms(2) in \<open>auto simp: runs_accounted_def begun_def caller_moves\<close>)

lemma runs_accounted_destructor:
  assumes "destructor_step p = Inr p'" "runs_accounted p"
  shows "runs_accounted p'"
  using assms(1)
  by (cases rule: destructor_stepE)
     (use assms(2) exited_hold_nothing [of "threads p"] in
       \<open>auto simp: runs_accounted_def begun_def\<close>)

lemma runs_accounted_step:
  assumes "step H e p = Inr p'" "runs_accounted p"
  shows "runs_accounted p'"
  using assms(1)
proof (cases rule: stepE)
  case create
  then show ?thesis using assms(2)
    by (simp add: runs_accounted_def begun_def threads_spawn trace_spawn)
next
  case (enter c do_work may_hold_locks)
  from enter(2) show ?thesis
    by (cases rule: Wait_enterE)
       (use assms(2) in \<open>auto simp: runs_accounted_def begun_def caller_moves\<close>)
next
  case (caller c)
  then show ?thesis using assms(2) runs_accounted_caller by blast
next
  case (worker w)
  then show ?thesis using assms(2) runs_accounted_worker by blast
next
  case destructor
  then show ?thesis using assms(2) runs_accounted_destructor by blast
qed (use assms(2) in \<open>simp_all add: runs_accounted_def begun_def\<close>)

lemma torn_down_step:
  assumes "step H e p = Inr p'" "torn_down p"
  shows "torn_down p'"
  using assms(1)
proof (cases rule: stepE)
  case create
  then show ?thesis using assms(2) by (simp add: torn_down_def)
next
  case (enter c do_work may_hold_locks)
  from enter(2) show ?thesis
    by (cases rule: Wait_enterE) (use assms(2) in \<open>auto simp: torn_down_def\<close>)
next
  case (caller c)
  from caller(2) show ?thesis
    by (cases rule: caller_stepE) (use assms(2) in \<open>auto simp: torn_down_def\<close>)
next
  case (worker w)
  from worker(2) show ?thesis
    by (cases rule: worker_stepE) (use assms(2) in \<open>auto simp: torn_down_def at_loop_test_def\<close>)
next
  case destructor
  from destructor(2) show ?thesis
    by (cases rule: destructor_stepE) (use assms(2) in \<open>auto simp: torn_down_def\<close>)
qed (use assms(2) in \<open>auto simp: torn_down_def\<close>)

lemma submitted_step:
  assumes "step H e p = Inr p'"
  shows "prefix (submitted p) (submitted p')"
  using assms
proof (cases rule: stepE)
  case (enter c do_work may_hold_locks)
  from enter(2) show ?thesis by (cases rule: Wait_enterE) auto
next
  case (caller c)
  from caller(2) show ?thesis by (cases rule: caller_stepE) auto
next
  case (worker w)
  from worker(2) show ?thesis
    by (cases rule: worker_stepE) (auto simp: at_loop_test_def)
next
  case destructor
  from destructor(2) show ?thesis by (cases rule: destructor_stepE) auto
qed auto

lemma distinct_prefix: "prefix xs ys \<Longrightarrow> distinct ys \<Longrightarrow> distinct xs"
  by (auto simp: prefix_def)

lemma snoc_eq_split:
  "xs @ [x] = l1 @ y # l2 \<longleftrightarrow>
     (l2 = [] \<and> l1 = xs \<and> x = y) \<or> (\<exists>l2'. l2 = l2' @ [x] \<and> xs = l1 @ y # l2')"
  by (cases l2 rule: rev_cases) auto

lemma Run_before_Finalize_snoc:
  "Run_before_Finalize (tr @ [(a, x)]) \<longleftrightarrow>
     Run_before_Finalize tr \<and> (\<forall>t. x = Run t \<longrightarrow> t \<notin> set (finalized tr))"
proof
  assume r: "Run_before_Finalize (tr @ [(a, x)])"
  have "Run_before_Finalize tr"
    unfolding Run_before_Finalize_def
  proof (intro allI impI)
    fix l1 b t l2
    assume "tr = l1 @ (b, Run t) # l2"
    then have "tr @ [(a, x)] = l1 @ (b, Run t) # (l2 @ [(a, x)])" by simp
    then show "t \<notin> set (finalized l1)"
      using r unfolding Run_before_Finalize_def by blast
  qed
  moreover have "t \<notin> set (finalized tr)" if "x = Run t" for t
    using r that unfolding Run_before_Finalize_def by blast
  ultimately show "Run_before_Finalize tr \<and> (\<forall>t. x = Run t \<longrightarrow> t \<notin> set (finalized tr))"
    by blast
next
  assume "Run_before_Finalize tr \<and> (\<forall>t. x = Run t \<longrightarrow> t \<notin> set (finalized tr))"
  then show "Run_before_Finalize (tr @ [(a, x)])"
    unfolding Run_before_Finalize_def snoc_eq_split by blast
qed

lemma Run_before_Finalize_Started:
  assumes "Run_before_Finalize tr"
  shows "Run_before_Finalize (tr @ map (\<lambda>i. (Worker i, Started)) js)"
proof (induction js rule: rev_induct)
  case Nil
  then show ?case using assms by simp
next
  case (snoc j js)
  have "Run_before_Finalize ((tr @ map (\<lambda>i. (Worker i, Started)) js) @ [(Worker j, Started)])"
    using snoc by (simp only: Run_before_Finalize_snoc) simp
  then show ?case by simp
qed

lemma fetched_not_finalized:
  assumes "accounted p" "distinct (submitted p)" "t \<in># fetched p"
  shows "t \<notin> set (finalized (trace p))"
proof
  assume "t \<in> set (finalized (trace p))"
  then have "1 \<le> count (mset (finalized (trace p))) t" by (simp add: Suc_le_eq)
  moreover have "1 \<le> count (fetched p) t" using assms(3) by (simp add: Suc_le_eq)
  moreover have "count (mset (submitted p)) t
      = count (mset (tasks p)) t + count (fetched p) t + count (begun p) t
        + count (mset (finalized (trace p))) t"
    using assms(1) unfolding accounted_def by (metis count_union)
  moreover have "count (mset (submitted p)) t \<le> 1"
    using assms(2) by (simp add: distinct_count_atmost_1)
  ultimately show False by linarith
qed

lemma Run_before_Finalize_step:
  assumes "step H e p = Inr p'" "accounted p" "distinct (submitted p)"
    "Run_before_Finalize (trace p)"
  shows "Run_before_Finalize (trace p')"
  using assms(1)
proof (cases rule: stepE)
  case create
  then show ?thesis using assms(4) by (simp add: trace_spawn Run_before_Finalize_Started)
next
  case (enter c do_work may_hold_locks)
  from enter(2) show ?thesis by (cases rule: Wait_enterE) (use assms(4) in auto)
next
  case (caller c)
  from caller(2) show ?thesis
  proof (cases rule: caller_stepE)
    case (run t)
    then have "t \<in># fetched p" by (simp add: fetched_def caller_moves)
    then have "t \<notin> set (finalized (trace p))"
      using assms(2,3) fetched_not_finalized by blast
    then show ?thesis using run assms(4) by (simp add: Run_before_Finalize_snoc)
  qed (use assms(4) in \<open>auto simp: Run_before_Finalize_snoc\<close>)
next
  case (worker w)
  from worker(2) show ?thesis
  proof (cases rule: worker_stepE)
    case (run t)
    then have "t \<in># fetched p" by (simp add: fetched_def worker_moves)
    then have "t \<notin> set (finalized (trace p))"
      using assms(2,3) fetched_not_finalized by blast
    then show ?thesis using run assms(4) by (simp add: Run_before_Finalize_snoc)
  qed (use assms(4) in \<open>auto simp: Run_before_Finalize_snoc at_loop_test_def\<close>)
next
  case destructor
  from destructor(2) show ?thesis
    by (cases rule: destructor_stepE) (use assms(4) in \<open>auto simp: Run_before_Finalize_snoc\<close>)
qed (use assms(4) in auto)

lemma task_inv_step:
  assumes "step H e p = Inr p'" "task_inv p"
  shows "task_inv p'"
proof -
  have "distinct (submitted p)" if "distinct (submitted p')"
    using submitted_step [OF assms(1)] that by (rule distinct_prefix)
  then show ?thesis
    using assms accounted_step runs_accounted_step torn_down_step Run_before_Finalize_step
    unfolding task_inv_def by blast
qed

lemma task_inv_init: "task_inv (AbstractThreadPool n peers k)"
  by (simp add: task_inv_def accounted_def runs_accounted_def torn_down_def begun_def
      fetched_def Run_before_Finalize_def AbstractThreadPool_def)

lemma task_inv_run:
  assumes "run H es (AbstractThreadPool n peers k) = Inr s"
  shows "task_inv s"
  using task_inv_step task_inv_init assms by (rule run_invariant [where I = task_inv])

lemma finalized_split: "mset (finalized tr) = mset (executed tr) + mset (drained tr)"
proof (induction tr)
  case Nil
  then show ?case by simp
next
  case (Cons x tr)
  obtain a y where x: "x = (a, y)" by (cases x)
  have "mset (finalize_of x) = mset (execute_of x) + mset (drain_of x)"
    unfolding x by (cases a; cases y) simp_all
  then show ?case using Cons
    by (simp add: finalized_def executed_def drained_def)
qed

text \<open>Every task is in one place.\<close>

lemma one_place:
  assumes "task_inv p" "distinct (submitted p)"
  shows "count (mset (tasks p)) t + count (fetched p) t + count (begun p) t
         + count (mset (executed (trace p))) t + count (mset (drained (trace p))) t
         = of_bool (t \<in> set (submitted p))"
proof -
  have "mset (tasks p) + fetched p + begun p
        + (mset (executed (trace p)) + mset (drained (trace p))) = mset (submitted p)"
    using assms(1) by (simp add: task_inv_def accounted_def finalized_split)
  then have "count (mset (tasks p)) t + count (fetched p) t + count (begun p) t
         + (count (mset (executed (trace p))) t + count (mset (drained (trace p))) t)
         = count (mset (submitted p)) t"
    by (metis count_union)
  moreover have "count (mset (submitted p)) t = of_bool (t \<in> set (submitted p))"
    using assms(2) by (simp add: distinct_count_atmost_1)
  ultimately show ?thesis by linarith
qed

lemma count_ran:
  assumes "task_inv p"
  shows "count_list (run_calls (trace p)) t = count (begun p) t + count (mset (executed (trace p))) t"
  using assms by (simp add: task_inv_def runs_accounted_def flip: count_mset)





section \<open>The order of the queue\<close>



lemma one_worker:
  assumes "length ws \<le> 1" "w < length ws"
  shows "w = 0" "ws = [ws ! 0]"
  using assms by (cases ws; auto)+

lemma no_hand [simp]: "concat (map w_hand (replicate n W_GetTask)) = []"
  by (induction n) auto



lemma list_all_update: "list_all P xs \<Longrightarrow> P y \<Longrightarrow> list_all P (xs[i := y])"
  by (induction xs arbitrary: i) (auto split: nat.splits)






lemma runs_of_simps [simp]:
  "runs_of a [] = []" "runs_of a (tr @ tr') = runs_of a tr @ runs_of a tr'"
  "runs_of a [(b, Run t)] = (if a = b then [t] else [])"
  "runs_of a [(b, Finalize t)] = []" "runs_of a [(b, ExitLoop)] = []"
  "runs_of a [(b, Started)] = []"
  by (simp_all add: runs_of_def)

lemma pops_of_simps [simp]:
  "pops_of a [] = []" "pops_of a (dq @ dq') = pops_of a dq @ pops_of a dq'"
  "pops_of a [(b, t)] = (if b = a then [t] else [])"
  by (simp_all add: pops_of_def)

lemma runs_of_Started [simp]: "runs_of a (map (\<lambda>i. (Worker i, Started)) is) = []"
  by (induction "is") (simp_all add: runs_of_def)











section \<open>The admission cap\<close>

lemma count_moves:
  assumes "w < length (threads p)"
  shows "waiting p = is_waiting (threads p ! w) + others is_waiting w (threads p)"
    and "sum_list (map is_waiting ((threads p)[w := x])) = is_waiting x + others is_waiting w (threads p)"
    and "busy p = has_task (threads p ! w) + others has_task w (threads p)"
    and "sum_list (map has_task ((threads p)[w := x])) = has_task x + others has_task w (threads p)"
  unfolding waiting_def busy_def using assms by (rule sum_list_one_out)+

lemma none_waiting [simp]:
  "sum_list (map is_waiting (replicate n W_GetTask)) = 0"
  "sum_list (map has_task (replicate n W_GetTask)) = 0"
  by (induction n) auto

lemma counted_step:
  assumes "step H e p = Inr p'" "counted p"
  shows "counted p'"
  using assms(1)
proof (cases rule: stepE)
  case create
  then show ?thesis using assms(2) by (simp add: counted_def waiting_def threads_spawn)
next
  case (enter c do_work may_hold_locks)
  from enter(2) show ?thesis
    by (cases rule: Wait_enterE) (use assms(2) in \<open>auto simp: counted_def waiting_def\<close>)
next
  case (caller c)
  from caller(2) show ?thesis
    by (cases rule: caller_stepE) (use assms(2) in \<open>auto simp: counted_def waiting_def\<close>)
next
  case (worker w)
  from worker(2) show ?thesis
  proof (cases rule: worker_stepE)
    case exit
    then show ?thesis using assms(2) count_moves(1,2) [of w p]
      by (auto simp: counted_def waiting_def at_loop_test_def)
  next
    case (pop t ts)
    then show ?thesis using assms(2) count_moves(1,2) [of w p]
      by (auto simp: counted_def waiting_def at_loop_test_def)
  next
    case wait
    then show ?thesis using assms(2) count_moves(1,2) [of w p]
      by (auto simp: counted_def waiting_def at_loop_test_def)
  next
    case (run t)
    then show ?thesis using assms(2) count_moves(1,2) [of w p]
      by (auto simp: counted_def waiting_def)
  next
    case (ran t)
    then show ?thesis using assms(2) count_moves(1,2) [of w p]
      by (auto simp: counted_def waiting_def)
  next
    case (fin t)
    then show ?thesis using assms(2) count_moves(1,2) [of w p]
      by (auto simp: counted_def waiting_def)
  qed
next
  case destructor
  from destructor(2) show ?thesis
  proof (cases rule: destructor_stepE)
    case join
    have "list_all (\<lambda>w. w = W_Exited) ws \<Longrightarrow> sum_list (map is_waiting ws) = 0" for ws
      by (induction ws) auto
    then show ?thesis using join assms(2) by (simp add: counted_def waiting_def)
  qed (use assms(2) in \<open>auto simp: counted_def waiting_def\<close>)
qed (use assms(2) in \<open>auto simp: counted_def waiting_def\<close>)

lemma busy_or_waiting:
  "sum_list (map has_task ws) + sum_list (map is_waiting ws) \<le> length ws"
proof (induction ws)
  case Nil
  then show ?case by simp
next
  case (Cons w ws)
  have "has_task w + is_waiting w \<le> 1" by (cases w) simp_all
  then show ?case using Cons by simp
qed

lemma others_active:
  assumes "w < length ws"
  shows "others has_task w ws + others is_waiting w ws < length ws"
proof -
  have "others has_task w ws + others is_waiting w ws
      = (sum_list (map has_task (take w ws)) + sum_list (map is_waiting (take w ws)))
        + (sum_list (map has_task (drop (Suc w) ws))
           + sum_list (map is_waiting (drop (Suc w) ws)))"
    by (simp add: others_def)
  also have "\<dots> \<le> length (take w ws) + length (drop (Suc w) ws)"
    by (intro add_mono busy_or_waiting)
  also have "\<dots> < length ws" using assms by simp
  finally show ?thesis .
qed

lemma inside_Run_le_busy: "inside_Run p \<le> busy p"
proof -
  have "sum_list (map is_inside_Run ws) \<le> sum_list (map has_task ws)" for ws
  proof (induction ws)
    case Nil
    then show ?case by simp
  next
    case (Cons w ws)
    have "is_inside_Run w \<le> has_task w"
      by (cases w rule: is_inside_Run.cases) simp_all
    then show ?case using Cons by simp
  qed
  then show ?thesis by (simp add: inside_Run_def busy_def)
qed

lemma within_cap_worker:
  assumes "worker_step H w p = Inr p'" "counted p" "within_cap p"
  shows "within_cap p'"
  using assms(1)
proof (cases rule: worker_stepE)
  case (pop t ts)
  have "waiting_count (at_loop_test w p) = others is_waiting w (threads p)"
    using pop(1,2) assms(2) count_moves(1) [of w p]
    by (auto simp: counted_def at_loop_test_def)
  moreover have "busy p = others has_task w (threads p)"
    using pop(1,2) count_moves(3) [of w p] by auto
  moreover have "busy p' = 1 + others has_task w (threads p)"
    using pop(1,7) count_moves(4) [of w p] by (simp add: busy_def at_loop_test_def)
  moreover have "max_active_workers p' = max_active_workers p"
    using pop(7) by (simp add: at_loop_test_def)
  moreover note others_active [OF pop(1)] pop(6)
  ultimately show ?thesis by (simp add: within_cap_def)
qed (use assms(3) count_moves(3,4) [of w p] in
      \<open>auto simp: within_cap_def busy_def at_loop_test_def\<close>)

lemma within_cap_step:
  assumes "step H e p = Inr p'" "counted p" "within_cap p"
    "\<forall>m. e = E_SetMaxActiveWorkers m \<longrightarrow> busy p \<le> m"
  shows "within_cap p'"
  using assms(1)
proof (cases rule: stepE)
  case create
  then show ?thesis by (simp add: within_cap_def busy_def threads_spawn sum_list_replicate)
next
  case (setmax m)
  then show ?thesis using assms(4) by (simp add: within_cap_def busy_def)
next
  case (enter c do_work may_hold_locks)
  from enter(2) show ?thesis
    by (cases rule: Wait_enterE) (use assms(3) in \<open>auto simp: within_cap_def busy_def\<close>)
next
  case (caller c)
  from caller(2) show ?thesis
    by (cases rule: caller_stepE) (use assms(3) in \<open>auto simp: within_cap_def busy_def\<close>)
next
  case (worker w)
  then show ?thesis using assms(2,3) within_cap_worker by blast
next
  case destructor
  from destructor(2) show ?thesis
    by (cases rule: destructor_stepE) (use assms(3) in \<open>auto simp: within_cap_def busy_def\<close>)
qed (use assms(3) in \<open>auto simp: within_cap_def busy_def\<close>)

lemma counted_run:
  assumes "run H es (AbstractThreadPool n peers k) = Inr s"
  shows "counted s"
proof -
  have "counted (AbstractThreadPool n peers k)"
    by (simp add: counted_def waiting_def AbstractThreadPool_def)
  with counted_step show ?thesis
    using assms by (rule run_invariant [where I = counted])
qed

text \<open>The counters do not wrap.\<close>

lemma no_wrap:
  assumes "run H es (AbstractThreadPool n peers k) = Inr s"
  shows "waiting_count s \<le> GetThreadCount s"
    and "w < length (threads s) \<Longrightarrow> threads s ! w = W_CondWait \<Longrightarrow> 0 < waiting_count s"
    and "w < length (threads s) \<Longrightarrow> threads s ! w \<noteq> W_CondWait \<Longrightarrow>
           waiting_count s < GetThreadCount s"
proof -
  have c: "waiting_count s = waiting s"
    using counted_run [OF assms] by (simp add: counted_def)
  show "waiting_count s \<le> GetThreadCount s"
    using busy_or_waiting [of "threads s"] c by (simp add: waiting_def GetThreadCount_def)
  show "0 < waiting_count s" if "w < length (threads s)" "threads s ! w = W_CondWait"
    using count_moves(1) [OF that(1)] that(2) c by simp
  show "waiting_count s < GetThreadCount s"
    if "w < length (threads s)" "threads s ! w \<noteq> W_CondWait"
  proof -
    have "is_waiting (threads s ! w) = 0"
      using that(2) by (cases "threads s ! w") simp_all
    then have "waiting s = others is_waiting w (threads s)"
      using count_moves(1) [OF that(1)] by simp
    moreover have "others is_waiting w (threads s) < length (threads s)"
      using others_active [OF that(1)] by simp
    ultimately show ?thesis using c by (simp add: GetThreadCount_def)
  qed
qed

lemma held_since_refl [simp]: "held_since ws ws"
  by (simp add: held_since_def)

lemma held_since_trans:
  assumes "held_since ps qs" "held_since qs ws"
  shows "held_since ps ws"
  using assms unfolding held_since_def by metis

lemma held_since_update:
  assumes "holds x = None \<or> holds x = holds (ws ! w)"
  shows "held_since ws (ws[w := x])"
proof (cases "w < length ws")
  case True
  then show ?thesis using assms by (auto simp: held_since_def nth_list_update)
next
  case False
  then have "ws[w := x] = ws" by (simp add: list_update_beyond)
  then show ?thesis by simp
qed

lemma has_task_holds: "has_task x \<le> has_task y" if "holds x = None \<or> holds x = holds y"
  using that by (cases x; cases y) auto

lemma busy_update:
  assumes "w < length (threads p)" "holds x = None \<or> holds x = holds (threads p ! w)"
  shows "sum_list (map has_task ((threads p)[w := x])) \<le> busy p"
  using count_moves(3,4) [OF assms(1)] has_task_holds [OF assms(2)]
  by simp

text \<open>A worker that takes a task leaves the pool within the cap.\<close>

lemma pop_within_cap:
  assumes "worker_step H w p = Inr p'" "counted p" "dequeued p' \<noteq> dequeued p"
  shows "within_cap p'"
  using assms(1)
proof (cases rule: worker_stepE)
  case (pop t ts)
  have "waiting_count (at_loop_test w p) = others is_waiting w (threads p)"
    using pop(1,2) assms(2) count_moves(1) [of w p]
    by (auto simp: counted_def at_loop_test_def)
  moreover have "busy p' = 1 + others has_task w (threads p)"
    using pop(1,7) count_moves(4) [of w p] by (simp add: busy_def at_loop_test_def)
  moreover have "max_active_workers p' = max_active_workers p"
    using pop(7) by (simp add: at_loop_test_def)
  moreover note others_active [OF pop(1)] pop(6)
  ultimately show ?thesis by (simp add: within_cap_def)
qed (use assms(3) in \<open>auto simp: at_loop_test_def\<close>)

lemma cap_worker:
  assumes "worker_step H w p = Inr p'" "counted p"
  shows "max_active_workers p' = max_active_workers p
    \<and> (within_cap p' \<or> held_since (threads p) (threads p') \<and> busy p' \<le> busy p)"
  using assms(1)
proof (cases rule: worker_stepE)
  case (pop t ts)
  then have "dequeued p' \<noteq> dequeued p" by (simp add: at_loop_test_def)
  with assms have "within_cap p'" by (rule pop_within_cap)
  then show ?thesis using pop(7) by (simp add: at_loop_test_def)
next
  case exit
  then show ?thesis using busy_update [of w p W_Exited]
    by (simp add: at_loop_test_def held_since_update busy_def)
next
  case wait
  then show ?thesis using busy_update [of w p W_CondWait]
    by (simp add: at_loop_test_def held_since_update busy_def)
next
  case (run t)
  then show ?thesis using busy_update [of w p "W_Task Running t"]
    by (simp add: held_since_update busy_def)
next
  case (ran t)
  then show ?thesis using busy_update [of w p "W_Task Ran t"]
    by (simp add: held_since_update busy_def)
next
  case (fin t)
  then show ?thesis using busy_update [of w p W_GetTask]
    by (simp add: held_since_update busy_def)
qed

lemma cap_step:
  assumes "step H e p = Inr p'" "counted p" "\<forall>m. e \<noteq> E_SetMaxActiveWorkers m"
  shows "max_active_workers p' = max_active_workers p
    \<and> (within_cap p' \<or> held_since (threads p) (threads p') \<and> busy p' \<le> busy p)"
  using assms(1)
proof (cases rule: stepE)
  case create
  then show ?thesis by (simp add: within_cap_def busy_def threads_spawn sum_list_replicate)
next
  case (setmax m)
  then show ?thesis using assms(3) by simp
next
  case (enter c do_work may_hold_locks)
  from enter(2) show ?thesis by (cases rule: Wait_enterE) (simp add: busy_def)
next
  case (caller c)
  from caller(2) show ?thesis by (cases rule: caller_stepE) (simp_all add: busy_def)
next
  case (worker w)
  then show ?thesis using assms(2) cap_worker by blast
next
  case destructor
  from destructor(2) show ?thesis
    by (cases rule: destructor_stepE) (simp_all add: busy_def within_cap_def)
qed (simp_all add: busy_def)

lemma cap_run:
  assumes "run H es (AbstractThreadPool n peers k) = Inr s"
  shows "within_cap s
    \<or> (\<exists>es1 m es2 s1. es = es1 @ E_SetMaxActiveWorkers m # es2
          \<and> run H es1 (AbstractThreadPool n peers k) = Inr s1 \<and> m < busy s1
          \<and> (\<forall>m'. E_SetMaxActiveWorkers m' \<notin> set es2)
          \<and> max_active_workers s = m \<and> held_since (threads s1) (threads s)
          \<and> busy s \<le> busy s1)"
  using assms
proof (induction es arbitrary: s rule: rev_induct)
  case Nil
  then show ?case by (auto simp: within_cap_def busy_def AbstractThreadPool_def)
next
  case (snoc e es)
  from snoc.prems obtain s0 where r: "run H es (AbstractThreadPool n peers k) = Inr s0"
    and st: "step H e s0 = Inr s"
    unfolding run_snoc by blast
  have c: "counted s0" using r by (rule counted_run)
  show ?case
  proof (cases "\<exists>m. e = E_SetMaxActiveWorkers m")
    case True
    then obtain m where e: "e = E_SetMaxActiveWorkers m" ..
    from st have s: "s = s0\<lparr>max_active_workers := m\<rparr>"
      unfolding e by (cases rule: stepE) simp_all
    show ?thesis
    proof (cases "busy s0 \<le> m")
      case True
      then show ?thesis by (simp add: s within_cap_def busy_def)
    next
      case False
      then have "m < busy s0" by simp
      moreover have "es @ [e] = es @ E_SetMaxActiveWorkers m # []" by (simp add: e)
      moreover have "max_active_workers s = m" "held_since (threads s0) (threads s)"
        "busy s \<le> busy s0"
        by (simp_all add: s busy_def)
      ultimately have "es @ [e] = es @ E_SetMaxActiveWorkers m # []
          \<and> run H es (AbstractThreadPool n peers k) = Inr s0 \<and> m < busy s0
          \<and> (\<forall>m'. E_SetMaxActiveWorkers m' \<notin> set [])
          \<and> max_active_workers s = m \<and> held_since (threads s0) (threads s)
          \<and> busy s \<le> busy s0"
        using r by simp
      then have "\<exists>es1 m es2 s1. es @ [e] = es1 @ E_SetMaxActiveWorkers m # es2
          \<and> run H es1 (AbstractThreadPool n peers k) = Inr s1 \<and> m < busy s1
          \<and> (\<forall>m'. E_SetMaxActiveWorkers m' \<notin> set es2)
          \<and> max_active_workers s = m \<and> held_since (threads s1) (threads s)
          \<and> busy s \<le> busy s1"
        by (intro exI)
      then show ?thesis ..
    qed
  next
    case False
    then have ne: "\<forall>m. e \<noteq> E_SetMaxActiveWorkers m" by simp
    note step = cap_step [OF st c ne]
    from snoc.IH [OF r] show ?thesis
    proof
      assume "within_cap s0"
      with st c have "within_cap s" by (rule within_cap_step) (use ne in simp)
      then show ?thesis ..
    next
      assume "\<exists>es1 m es2 s1. es = es1 @ E_SetMaxActiveWorkers m # es2
          \<and> run H es1 (AbstractThreadPool n peers k) = Inr s1 \<and> m < busy s1
          \<and> (\<forall>m'. E_SetMaxActiveWorkers m' \<notin> set es2)
          \<and> max_active_workers s0 = m \<and> held_since (threads s1) (threads s0)
          \<and> busy s0 \<le> busy s1"
      then obtain es1 m es2 s1 where old: "es = es1 @ E_SetMaxActiveWorkers m # es2"
        "run H es1 (AbstractThreadPool n peers k) = Inr s1" "m < busy s1"
        "max_active_workers s0 = m" "held_since (threads s1) (threads s0)"
        "busy s0 \<le> busy s1" "\<forall>m'. E_SetMaxActiveWorkers m' \<notin> set es2"
        by blast
      show ?thesis
      proof (cases "within_cap s")
        case True
        then show ?thesis ..
      next
        case False
        with step have h: "held_since (threads s0) (threads s)" "busy s \<le> busy s0"
          and m: "max_active_workers s = max_active_workers s0"
          by blast+
        have "es @ [e] = es1 @ E_SetMaxActiveWorkers m # (es2 @ [e])" by (simp add: old(1))
        moreover have "held_since (threads s1) (threads s)"
          using old(5) h(1) by (rule held_since_trans)
        moreover have "busy s \<le> busy s1" using h(2) old(6) by simp
        moreover have "max_active_workers s = m" using m old(4) by simp
        ultimately have "es @ [e] = es1 @ E_SetMaxActiveWorkers m # (es2 @ [e])
            \<and> run H es1 (AbstractThreadPool n peers k) = Inr s1 \<and> m < busy s1
            \<and> (\<forall>m'. E_SetMaxActiveWorkers m' \<notin> set (es2 @ [e]))
            \<and> max_active_workers s = m \<and> held_since (threads s1) (threads s)
            \<and> busy s \<le> busy s1"
          using old(2,3,7) ne by auto
        then have "\<exists>es1 m es2 s1. es @ [e] = es1 @ E_SetMaxActiveWorkers m # es2
            \<and> run H es1 (AbstractThreadPool n peers k) = Inr s1 \<and> m < busy s1
            \<and> (\<forall>m'. E_SetMaxActiveWorkers m' \<notin> set es2)
            \<and> max_active_workers s = m \<and> held_since (threads s1) (threads s)
            \<and> busy s \<le> busy s1"
          by (intro exI)
        then show ?thesis ..
      qed
    qed
  qed
qed

lemma GetTask_admission:
  assumes "GetTask H p = Inr (Returns (Some t), p')"
  shows "GetThreadCount p - waiting_count p \<le> max_active_workers p"
  using assms
  by (auto simp: GetTask_def Let_def split: if_splits sum.splits prod.splits option.splits)

text \<open>
  C2, as amended.  In every run \<open>waiting_count_\<close> is the number of workers in the condition
  wait and never exceeds the number of workers, so the subtraction of line 271 does not
  wrap; \<open>GetTask\<close> returns a task only when the number of workers not waiting, the caller
  among them, is at most the cap; a worker that takes a task leaves at most
  \<open>max_active_workers_\<close> workers holding one; and no step takes the pool from within the
  cap to beyond it, except a call of \<open>SetMaxActiveWorkers\<close> with a cap below the number
  of workers that hold a task.  So the workers that hold a task, and with them the
  workers inside \<open>Run\<close>, are more than the cap only after such a call, the last call of
  \<open>SetMaxActiveWorkers\<close> so far, and only as long as no worker has taken a task since:
  each of them held the same task at the call, and they are no more than they were at
  the call.
\<close>

theorem cap_exceeded_only_after_cut:
  assumes "run H es (AbstractThreadPool n peers k) = Inr s"
  shows "inside_Run s \<le> busy s
    \<and> (busy s \<le> max_active_workers s
        \<or> (\<exists>es1 m es2 s1. es = es1 @ E_SetMaxActiveWorkers m # es2
              \<and> run H es1 (AbstractThreadPool n peers k) = Inr s1 \<and> m < busy s1
              \<and> (\<forall>m'. E_SetMaxActiveWorkers m' \<notin> set es2)
              \<and> max_active_workers s = m \<and> held_since (threads s1) (threads s)
              \<and> busy s \<le> busy s1))
    \<and> waiting_count s = waiting s \<and> waiting_count s \<le> GetThreadCount s
    \<and> (\<forall>t p'. GetTask H s = Inr (Returns (Some t), p') \<longrightarrow>
          GetThreadCount s - waiting_count s \<le> max_active_workers s)
    \<and> (\<forall>t p'. GetTask_resumed H s = Inr (Returns (Some t), p') \<longrightarrow>
          GetThreadCount s - (waiting_count s - 1) \<le> max_active_workers s)
    \<and> (\<forall>w s'. step H (E_Worker w) s = Inr s' \<and> dequeued s' \<noteq> dequeued s \<longrightarrow>
          busy s' \<le> max_active_workers s')
    \<and> (\<forall>e s'. step H e s = Inr s' \<and> busy s \<le> max_active_workers s
            \<and> (\<forall>m. e = E_SetMaxActiveWorkers m \<longrightarrow> busy s \<le> m) \<longrightarrow>
          busy s' \<le> max_active_workers s')"
proof -
  have c: "counted s" using assms by (rule counted_run)
  have 1: "inside_Run s \<le> busy s" by (rule inside_Run_le_busy)
  have 2: "busy s \<le> max_active_workers s
        \<or> (\<exists>es1 m es2 s1. es = es1 @ E_SetMaxActiveWorkers m # es2
              \<and> run H es1 (AbstractThreadPool n peers k) = Inr s1 \<and> m < busy s1
              \<and> (\<forall>m'. E_SetMaxActiveWorkers m' \<notin> set es2)
              \<and> max_active_workers s = m \<and> held_since (threads s1) (threads s)
              \<and> busy s \<le> busy s1)"
    using cap_run [OF assms] by (simp add: within_cap_def)
  have 3: "waiting_count s = waiting s" using c by (simp add: counted_def)
  have 4: "waiting_count s \<le> GetThreadCount s" using assms by (rule no_wrap(1))
  have 5: "GetThreadCount s - waiting_count s \<le> max_active_workers s"
    if "GetTask H s = Inr (Returns (Some t), p')" for t p'
    using that by (rule GetTask_admission)
  have 6: "GetThreadCount s - (waiting_count s - 1) \<le> max_active_workers s"
    if "GetTask_resumed H s = Inr (Returns (Some t), p')" for t p'
    using GetTask_admission [of H "s\<lparr>waiting_count := waiting_count s - 1\<rparr>" t p'] that
    by (simp add: GetTask_resumed_def GetThreadCount_def)
  have 7: "busy s' \<le> max_active_workers s'"
    if "step H (E_Worker w) s = Inr s' \<and> dequeued s' \<noteq> dequeued s" for w s'
  proof -
    from that have "worker_step H w s = Inr s'" "dequeued s' \<noteq> dequeued s"
      by (simp_all add: step_def)
    from pop_within_cap [OF this(1) c this(2)] show ?thesis by (simp add: within_cap_def)
  qed
  have 8: "busy s' \<le> max_active_workers s'"
    if "step H e s = Inr s' \<and> busy s \<le> max_active_workers s
        \<and> (\<forall>m. e = E_SetMaxActiveWorkers m \<longrightarrow> busy s \<le> m)" for e s'
  proof -
    from that have "step H e s = Inr s'" "within_cap s"
      "\<forall>m. e = E_SetMaxActiveWorkers m \<longrightarrow> busy s \<le> m"
      by (simp_all add: within_cap_def)
    from within_cap_step [OF this(1) c this(2,3)] show ?thesis by (simp add: within_cap_def)
  qed
  have 5: "\<forall>t p'. GetTask H s = Inr (Returns (Some t), p') \<longrightarrow>
          GetThreadCount s - waiting_count s \<le> max_active_workers s"
    using 5 by blast
  have 6: "\<forall>t p'. GetTask_resumed H s = Inr (Returns (Some t), p') \<longrightarrow>
          GetThreadCount s - (waiting_count s - 1) \<le> max_active_workers s"
    using 6 by blast
  have 7: "\<forall>w s'. step H (E_Worker w) s = Inr s' \<and> dequeued s' \<noteq> dequeued s \<longrightarrow>
          busy s' \<le> max_active_workers s'"
    using 7 by blast
  have 8: "\<forall>e s'. step H e s = Inr s' \<and> busy s \<le> max_active_workers s
            \<and> (\<forall>m. e = E_SetMaxActiveWorkers m \<longrightarrow> busy s \<le> m) \<longrightarrow>
          busy s' \<le> max_active_workers s'"
    using 8 by blast
  show ?thesis
    by (intro conjI) (rule 1, rule 2, rule 3, rule 4, rule 5, rule 6, rule 7, rule 8)
qed

text \<open>
  C2 as stated fails: two workers are inside \<open>Run\<close> when \<open>SetMaxActiveWorkers(1)\<close> is
  called; the call passes its \<open>CHECK\<close> and leaves two workers inside \<open>Run\<close> under a
  cap of one.
\<close>

theorem cap_exceeded_after_cut:
  "run HasOutstandingTasks cut_example (AbstractThreadPool 2 False 0) = Inr cut_state
   \<and> GetThreadCount cut_state = 2 \<and> max_active_workers cut_state = 1
   \<and> threads cut_state = [W_Task Running 1, W_Task Running 2]
   \<and> inside_Run cut_state = 2
   \<and> \<not> inside_Run cut_state \<le> max_active_workers cut_state"
  by code_simp

text \<open>
  The same run: the two workers are beyond the cap of one, so the run ends with a cut
  at which the workers held what they hold now.  Then the first worker finishes task 1
  and asks for another task: the pool is back within the cap and the worker waits.
\<close>

theorem cap_exceeded_only_after_cut_witness:
  "run HasOutstandingTasks cut_example (AbstractThreadPool 2 False 0) = Inr cut_state
   \<and> busy cut_state = 2 \<and> max_active_workers cut_state = 1
   \<and> (\<exists>es1 m es2 s1. cut_example = es1 @ E_SetMaxActiveWorkers m # es2
         \<and> run HasOutstandingTasks es1 (AbstractThreadPool 2 False 0) = Inr s1
         \<and> m < busy s1 \<and> held_since (threads s1) (threads cut_state)
         \<and> busy cut_state \<le> busy s1)
   \<and> run HasOutstandingTasks recovered_example (AbstractThreadPool 2 False 0)
       = Inr recovered_state
   \<and> threads recovered_state = [W_CondWait, W_Task Running 2]
   \<and> max_active_workers recovered_state = 1
   \<and> busy recovered_state \<le> max_active_workers recovered_state
   \<and> inside_Run recovered_state \<le> busy recovered_state
   \<and> waiting_count recovered_state = waiting recovered_state"
proof -
  have r: "run HasOutstandingTasks cut_example (AbstractThreadPool 2 False 0) = Inr cut_state"
    by code_simp
  have v: "busy cut_state = 2" "max_active_workers cut_state = 1" by code_simp+
  have r': "run HasOutstandingTasks recovered_example (AbstractThreadPool 2 False 0)
       = Inr recovered_state"
    by code_simp
  have v': "threads recovered_state = [W_CondWait, W_Task Running 2]"
    "max_active_workers recovered_state = 1"
    "busy recovered_state \<le> max_active_workers recovered_state"
    by code_simp+
  note full = cap_exceeded_only_after_cut [OF r]
  from full v
  have "\<exists>es1 m es2 s1. cut_example = es1 @ E_SetMaxActiveWorkers m # es2
         \<and> run HasOutstandingTasks es1 (AbstractThreadPool 2 False 0) = Inr s1
         \<and> m < busy s1
         \<and> (\<forall>m'. E_SetMaxActiveWorkers m' \<notin> set es2)
         \<and> max_active_workers cut_state = m \<and> held_since (threads s1) (threads cut_state)
         \<and> busy cut_state \<le> busy s1"
    by simp
  then have c: "\<exists>es1 m es2 s1. cut_example = es1 @ E_SetMaxActiveWorkers m # es2
         \<and> run HasOutstandingTasks es1 (AbstractThreadPool 2 False 0) = Inr s1
         \<and> m < busy s1 \<and> held_since (threads s1) (threads cut_state)
         \<and> busy cut_state \<le> busy s1"
    by blast
  note full' = cap_exceeded_only_after_cut [OF r']
  from full' have "inside_Run recovered_state \<le> busy recovered_state"
    "waiting_count recovered_state = waiting recovered_state"
    by blast+
  then show ?thesis using c r v r' v' by blast
qed

section \<open>Taking a task without waiting\<close>

text \<open>
  C7, as amended.  \<open>TryGetTask\<close> never waits and applies the pop of \<open>TryGetTaskLocked\<close>
  alone, without the admission test of \<open>GetTask\<close>: it returns the front task and
  removes it whenever there is an outstanding task, and returns no task, leaving the
  pool as it is, when there is none.  \<open>GetTask\<close> returns a task without waiting exactly
  when the pool is not shutting down, the cap is not saturated and \<open>TryGetTask\<close> would
  return that task.
\<close>

theorem TryGetTask_pops_without_admission:
  "(H p \<longrightarrow> tasks p \<noteq> [] \<longrightarrow>
      TryGetTask H p = Inr (Some (hd (tasks p)), p\<lparr>tasks := tl (tasks p)\<rparr>))
   \<and> (\<not> H p \<longrightarrow> TryGetTask H p = Inr (None, p))
   \<and> (TryGetTask H p = Inr (Some t, p') \<longrightarrow> H p \<and> tasks p = t # tasks p')
   \<and> (GetTask H p = Inr (Returns (Some t), p') \<longleftrightarrow>
        \<not> shutting_down p \<and> GetThreadCount p - waiting_count p \<le> max_active_workers p
        \<and> TryGetTask H p = Inr (Some t, p'))"
  by (cases "tasks p")
     (auto simp: TryGetTask_def TryGetTaskLocked_def GetTask_def IsShuttingDown_def Let_def
       split: if_splits)

text \<open>
  C7 as stated fails: with two workers and a cap of one, one worker runs a task and the
  other waits; when it resumes, the cap is saturated and \<open>GetTask\<close> makes it wait again
  with task 2 queued, yet \<open>TryGetTask\<close> returns task 2.
\<close>

theorem TryGetTask_ignores_cap:
  "run HasOutstandingTasks saturated_example (AbstractThreadPool 2 False 1)
     = Inr saturated_state
   \<and> threads saturated_state = [W_CondWait, W_Task Running 1]
   \<and> tasks saturated_state = [2] \<and> max_active_workers saturated_state = 1
   \<and> GetTask_resumed HasOutstandingTasks saturated_state
       = Inr (Waits False, saturated_state)
   \<and> TryGetTask HasOutstandingTasks saturated_state
       = Inr (Some 2, saturated_state\<lparr>tasks := []\<rparr>)"
  by code_simp

text \<open>In the same pool: \<open>TryGetTask\<close> takes task 2 and then finds nothing, and \<open>GetTask\<close>
  called by a thread that finds the cap not saturated takes task 2 as well.\<close>

theorem TryGetTask_pops_without_admission_witness:
  "HasOutstandingTasks saturated_state \<and> tasks saturated_state \<noteq> []
   \<and> TryGetTask HasOutstandingTasks saturated_state
       = Inr (Some 2, saturated_state\<lparr>tasks := []\<rparr>)
   \<and> \<not> HasOutstandingTasks (saturated_state\<lparr>tasks := []\<rparr>)
   \<and> TryGetTask HasOutstandingTasks (saturated_state\<lparr>tasks := []\<rparr>)
       = Inr (None, saturated_state\<lparr>tasks := []\<rparr>)
   \<and> GetThreadCount saturated_state - waiting_count saturated_state
       \<le> max_active_workers saturated_state
   \<and> GetTask HasOutstandingTasks saturated_state
       = Inr (Returns (Some 2), saturated_state\<lparr>tasks := []\<rparr>)"
proof -
  have v: "tasks saturated_state = [2]" "started saturated_state"
    "threads saturated_state = [W_CondWait, W_Task Running 1]"
    "max_active_workers saturated_state = 1" "waiting_count saturated_state = 1"
    "\<not> shutting_down saturated_state"
    by code_simp+
  have h: "HasOutstandingTasks saturated_state" "tasks saturated_state \<noteq> []"
    by (simp_all add: HasOutstandingTasks_def v)
  have e: "\<not> HasOutstandingTasks (saturated_state\<lparr>tasks := []\<rparr>)"
    by (simp add: HasOutstandingTasks_def)
  have a: "GetThreadCount saturated_state - waiting_count saturated_state
       \<le> max_active_workers saturated_state"
    by (simp add: GetThreadCount_def v)
  note full = TryGetTask_pops_without_admission
    [of HasOutstandingTasks saturated_state 2 "saturated_state\<lparr>tasks := []\<rparr>"]
  from full h
  have "TryGetTask HasOutstandingTasks saturated_state
       = Inr (Some (hd (tasks saturated_state)),
              saturated_state\<lparr>tasks := tl (tasks saturated_state)\<rparr>)"
    by blast
  then have t: "TryGetTask HasOutstandingTasks saturated_state
       = Inr (Some 2, saturated_state\<lparr>tasks := []\<rparr>)"
    by (simp add: v)
  from full t a v(6)
  have g: "GetTask HasOutstandingTasks saturated_state
       = Inr (Returns (Some 2), saturated_state\<lparr>tasks := []\<rparr>)"
    by blast
  from TryGetTask_pops_without_admission
    [of HasOutstandingTasks "saturated_state\<lparr>tasks := []\<rparr>"] e
  have n: "TryGetTask HasOutstandingTasks (saturated_state\<lparr>tasks := []\<rparr>)
       = Inr (None, saturated_state\<lparr>tasks := []\<rparr>)"
    by blast
  from h e a t g n show ?thesis by blast
qed

section \<open>A stopped pool\<close>

lemma kept_update:
  assumes "kept ps ws" "y \<noteq> W_Exited" "ws ! w \<noteq> W_CondWait \<or> y = W_CondWait"
  shows "kept ps (ws[w := y])"
  unfolding kept_def
proof (intro conjI allI impI)
  show "ps = [] \<or> length (ws[w := y]) = length ps"
    using assms(1) by (simp add: kept_def)
next
  fix v assume v: "v < length ps" "ps ! v = W_CondWait"
  then have "ws ! v = W_CondWait" "v < length ws"
    using assms(1) by (auto simp: kept_def)
  then show "ws[w := y] ! v = W_CondWait"
    using assms(3) by (cases "v = w") auto
next
  fix v assume v: "v < length ps" "ws[w := y] ! v = W_Exited"
  then have "v < length ws" using assms(1) by (auto simp: kept_def)
  then have "ws ! v = W_Exited" using v(2) assms(2) by (cases "v = w") auto
  then show "ps ! v = W_Exited" using v(1) assms(1) by (simp add: kept_def)
qed

lemma kept_fresh: "kept ps [] \<Longrightarrow> kept ps ws"
  by (auto simp: kept_def)

lemma held_backI:
  assumes "\<not> started q" "\<not> shutting_down q" "dequeued q = dequeued p"
    "prefix (tasks p) (tasks q)" "kept (threads p) (threads q)"
  shows "held_back p q"
  unfolding held_back_def using assms by (intro conjI)

lemma held_backD:
  assumes "held_back p q"
  shows "\<not> started q" "\<not> shutting_down q" "dequeued q = dequeued p"
    "prefix (tasks p) (tasks q)" "kept (threads p) (threads q)"
  using assms unfolding held_back_def by blast+

lemma held_back_moves:
  assumes "held_back p q"
    and "started q' = started q" "shutting_down q' = shutting_down q"
    and "dequeued q' = dequeued q" "tasks q' = tasks q"
    and "threads q' = (threads q)[w := y]"
    and "y \<noteq> W_Exited" "threads q ! w \<noteq> W_CondWait \<or> y = W_CondWait"
  shows "held_back p q'"
proof (rule held_backI)
  note old = held_backD [OF assms(1)]
  show "\<not> started q'" "\<not> shutting_down q'" "dequeued q' = dequeued p"
    "prefix (tasks p) (tasks q')"
    using old assms(2-5) by simp_all
  show "kept (threads p) (threads q')"
    unfolding assms(6) using old(5) assms(7,8) by (rule kept_update)
qed

lemma held_back_worker:
  assumes "worker_step H w q = Inr q'" "held_back p q" "\<And>x. H x \<Longrightarrow> started x"
  shows "held_back p q'"
proof -
  note old = held_backD [OF assms(2)]
  from assms(1) show ?thesis
  proof (cases rule: worker_stepE)
    case exit
    then show ?thesis using old(2) by simp
  next
    case (pop t ts)
    then have "started (at_loop_test w q)" using assms(3) by blast
    then show ?thesis using old(1) by (simp add: at_loop_test_def split: if_splits)
  next
    case wait
    show ?thesis
      by (rule held_back_moves [OF assms(2), where w = w and y = W_CondWait])
         (simp_all add: wait(5) at_loop_test_def)
  next
    case (run t)
    show ?thesis
      by (rule held_back_moves [OF assms(2), where w = w and y = "W_Task Running t"])
         (simp_all add: run)
  next
    case (ran t)
    show ?thesis
      by (rule held_back_moves [OF assms(2), where w = w and y = "W_Task Ran t"])
         (simp_all add: ran)
  next
    case (fin t)
    show ?thesis
      by (rule held_back_moves [OF assms(2), where w = w and y = W_GetTask])
         (simp_all add: fin)
  qed
qed

lemma held_back_step:
  assumes "step H e q = Inr q'" "held_back p q" "\<And>x. H x \<Longrightarrow> started x"
    "e \<noteq> E_StartWorkers" "e \<noteq> E_Destructor"
  shows "held_back p q'"
proof -
  note old = held_backD [OF assms(2)]
  from assms(1) show ?thesis
  proof (cases rule: stepE)
    case (add t)
    have "prefix (tasks p) (tasks q @ [t])" using old(4) by (rule prefix_prefix)
    then show ?thesis unfolding add(3) using old by (intro held_backI) simp_all
  next
    case create
    have "threads p = []" using old(5) create(3) by (auto simp: kept_def)
    then have "kept (threads p) (threads q')" by (simp add: kept_def)
    then show ?thesis using old create by (intro held_backI) simp_all
  next
    case (setmax m)
    then show ?thesis using old by (intro held_backI) simp_all
  next
    case start
    then show ?thesis using assms(4) by simp
  next
    case stop
    then show ?thesis using old by (intro held_backI) simp_all
  next
    case (enter c do_work may_hold_locks)
    from enter(2) show ?thesis
      by (cases rule: Wait_enterE) (use old in \<open>intro held_backI; simp\<close>)
  next
    case (caller c)
    from caller(2) show ?thesis
    proof (cases rule: caller_stepE)
      case (pop t ts)
      then have "started q" using assms(3) by blast
      then show ?thesis using old(1) by simp
    qed (use old in \<open>(intro held_backI; simp)+\<close>)
  next
    case (worker w)
    then show ?thesis using assms(2,3) held_back_worker by blast
  next
    case destructor
    then show ?thesis using assms(5) by simp
  qed
qed

text \<open>
  C4.  After \<open>StopWorkers\<close> on a pool that is not shutting down, and as long as nobody
  calls \<open>StartWorkers\<close> or destroys the pool: \<open>started_\<close> is false, no worker and no
  thread inside \<open>Wait\<close> takes a task out of the queue (tasks may still be added), a
  worker that was waiting is still waiting, and no worker has left its loop.
\<close>

theorem no_dequeue_while_stopped:
  assumes "run HasOutstandingTasks (E_StopWorkers # es) p = Inr s"
    and "E_StartWorkers \<notin> set es" and "E_Destructor \<notin> set es"
    and "\<not> shutting_down p"
  shows "StopWorkers p = p\<lparr>started := False\<rparr>
    \<and> \<not> started s \<and> dequeued s = dequeued p \<and> prefix (tasks p) (tasks s)
    \<and> (\<forall>w < length (threads p).
          (threads p ! w = W_CondWait \<longrightarrow> threads s ! w = W_CondWait)
          \<and> (threads s ! w = W_Exited \<longrightarrow> threads p ! w = W_Exited))"
proof -
  have "step HasOutstandingTasks E_StopWorkers p = Inr (StopWorkers p)
      \<or> (\<exists>f. step HasOutstandingTasks E_StopWorkers p = Inl f)"
    by (simp add: step_def)
  with assms(1) have r: "run HasOutstandingTasks es (StopWorkers p) = Inr s"
    by auto
  have start: "held_back p (StopWorkers p)"
    using assms(4) by (intro held_backI) (simp_all add: StopWorkers_def kept_def)
  have stp: "held_back p q'"
    if "e \<in> set es" "step HasOutstandingTasks e q = Inr q'" "held_back p q" for e q q'
  proof -
    have "e \<noteq> E_StartWorkers" "e \<noteq> E_Destructor" using that(1) assms(2,3) by auto
    moreover have "started x" if "HasOutstandingTasks x" for x
      using that by (simp add: HasOutstandingTasks_def)
    ultimately show ?thesis using that(2,3) held_back_step by blast
  qed
  have "held_back p s"
    by (rule run_invariant [where I = "held_back p" and H = HasOutstandingTasks and es = es,
          OF stp start r])
  then have "\<not> started s \<and> dequeued s = dequeued p \<and> prefix (tasks p) (tasks s)
    \<and> (\<forall>w < length (threads p).
          (threads p ! w = W_CondWait \<longrightarrow> threads s ! w = W_CondWait)
          \<and> (threads s ! w = W_Exited \<longrightarrow> threads p ! w = W_Exited))"
    using held_backD [of p s] unfolding kept_def by blast
  moreover have "StopWorkers p = p\<lparr>started := False\<rparr>" by (simp add: StopWorkers_def)
  ultimately show ?thesis by blast
qed

text \<open>The run after \<open>StopWorkers\<close>: worker 1 finishes task 2 and waits, the outside thread
  gets no task, task 3 stays queued.\<close>

theorem no_dequeue_while_stopped_witness:
  "run HasOutstandingTasks (E_StopWorkers # stop_example) before_stop = Inr after_stop
   \<and> E_StartWorkers \<notin> set stop_example \<and> E_Destructor \<notin> set stop_example
   \<and> \<not> shutting_down before_stop
   \<and> threads before_stop = [W_Task Fetched 1, W_Task Fetched 2]
   \<and> tasks before_stop = []
   \<and> threads after_stop = [W_Task Running 1, W_CondWait]
   \<and> tasks after_stop = [3]
   \<and> dequeued after_stop = dequeued before_stop \<and> \<not> started after_stop"
proof -
  have r: "run HasOutstandingTasks (E_StopWorkers # stop_example) before_stop = Inr after_stop"
    by code_simp
  have q: "E_StartWorkers \<notin> set stop_example" "E_Destructor \<notin> set stop_example"
    by (simp_all add: stop_example_def)
  have n: "\<not> shutting_down before_stop" by code_simp
  have v: "threads before_stop = [W_Task Fetched 1, W_Task Fetched 2]"
    "tasks before_stop = []"
    "threads after_stop = [W_Task Running 1, W_CondWait]" "tasks after_stop = [3]"
    by code_simp+
  from no_dequeue_while_stopped [OF r q n]
  have "dequeued after_stop = dequeued before_stop" "\<not> started after_stop" by blast+
  then show ?thesis using r q n v by blast
qed

section \<open>Tearing the pool down\<close>

lemma drained_empty: "drained tr = [] \<longleftrightarrow> (\<forall>t. (Destructor, Finalize t) \<notin> set tr)"
proof (induction tr)
  case Nil
  then show ?case by simp
next
  case (Cons x tr)
  obtain a y where x: "x = (a, y)" by (cases x)
  have "drain_of (a, y) = [] \<longleftrightarrow> (\<forall>t. (a, y) \<noteq> (Destructor, Finalize t))"
    by (cases a; cases y) simp_all
  then show ?case using Cons x by (auto simp: drained_def)
qed

lemma drain_after_exit_none: "drained tr = [] \<Longrightarrow> drain_after_exit tr"
  unfolding drain_after_exit_def drained_empty by auto

lemma drain_after_exit_caller:
  assumes "drain_after_exit tr"
  shows "drain_after_exit (tr @ [(Caller c, x)])"
  unfolding drain_after_exit_def
proof (intro allI impI)
  fix l1 t l2
  assume "tr @ [(Caller c, x)] = l1 @ (Destructor, Finalize t) # l2"
  then obtain l2' where l2: "l2 = l2' @ [(Caller c, x)]"
    and tr: "tr = l1 @ (Destructor, Finalize t) # l2'"
    unfolding snoc_eq_split by auto
  from assms tr have "(\<forall>w. (Worker w, Started) \<in> set tr \<longrightarrow> (Worker w, ExitLoop) \<in> set l1)
      \<and> (\<forall>w y. (Worker w, y) \<notin> set l2')"
    unfolding drain_after_exit_def by blast
  then show "(\<forall>w. (Worker w, Started) \<in> set (tr @ [(Caller c, x)])
        \<longrightarrow> (Worker w, ExitLoop) \<in> set l1)
      \<and> (\<forall>w y. (Worker w, y) \<notin> set l2)"
    using l2 by auto
qed

lemma drain_after_exit_drain:
  assumes "drain_after_exit tr"
    and "\<forall>w. (Worker w, Started) \<in> set tr \<longrightarrow> (Worker w, ExitLoop) \<in> set tr"
  shows "drain_after_exit (tr @ [(Destructor, Finalize t)])"
  unfolding drain_after_exit_def
proof (intro allI impI)
  fix l1 t' l2
  assume e: "tr @ [(Destructor, Finalize t)] = l1 @ (Destructor, Finalize t') # l2"
  then consider "l2 = []" "l1 = tr"
    | l2' where "l2 = l2' @ [(Destructor, Finalize t)]"
        "tr = l1 @ (Destructor, Finalize t') # l2'"
    unfolding snoc_eq_split by auto
  then show "(\<forall>w. (Worker w, Started) \<in> set (tr @ [(Destructor, Finalize t)])
        \<longrightarrow> (Worker w, ExitLoop) \<in> set l1)
      \<and> (\<forall>w y. (Worker w, y) \<notin> set l2)"
  proof cases
    case 1
    then show ?thesis using assms(2) by auto
  next
    case 2
    from assms(1) 2(2)
    have "(\<forall>w. (Worker w, Started) \<in> set tr \<longrightarrow> (Worker w, ExitLoop) \<in> set l1)
      \<and> (\<forall>w y. (Worker w, y) \<notin> set l2')"
      unfolding drain_after_exit_def by blast
    then show ?thesis using 2(1) by auto
  qed
qed

lemma teardownI:
  assumes "quiet_before p" "joined_after p" "exits_logged p" "closing p"
    "drain_after_exit (trace p)"
  shows "teardown p"
  unfolding teardown_def using assms by blast

lemma teardownD:
  assumes "teardown p"
  shows "quiet_before p" "joined_after p" "exits_logged p" "closing p"
    "drain_after_exit (trace p)"
  using assms unfolding teardown_def by blast+

text \<open>A step that leaves the workers, the trace and the destructor where they are.\<close>

lemma teardown_same:
  assumes "teardown p" "lifecycle q = lifecycle p" "threads q = threads p"
    "trace q = trace p" "shutting_down q = shutting_down p"
  shows "teardown q"
  using assms
  unfolding teardown_def quiet_before_def joined_after_def exits_logged_def closing_def
  by simp

text \<open>A call into a task by a thread inside \<open>Wait\<close>.\<close>

lemma teardown_caller_entry:
  assumes "teardown p" "lifecycle q = lifecycle p" "threads q = threads p"
    "trace q = trace p @ [(Caller c, x)]" "shutting_down q = shutting_down p"
  shows "teardown q"
proof (rule teardownI)
  note old = teardownD [OF assms(1)]
  have d: "drained (trace q) = drained (trace p)" by (simp add: assms(4))
  show "quiet_before q" using old(1) d by (auto simp: quiet_before_def assms(2,3,4))
  show "joined_after q" using old(2) by (auto simp: joined_after_def assms(2,3,4))
  show "exits_logged q" using old(3) by (auto simp: exits_logged_def assms(3,4))
  show "closing q" using old(4) by (simp add: closing_def assms(2,5))
  show "drain_after_exit (trace q)"
    unfolding assms(4) using old(5) by (rule drain_after_exit_caller)
qed

text \<open>A step of worker \<open>w\<close>.\<close>

lemma teardown_worker_entry:
  assumes "teardown p" "w < length (threads p)" "lifecycle q = lifecycle p"
    "threads q = (threads p)[w := y]" "trace q = trace p @ ext"
    "ext = [] \<or> (\<exists>x. ext = [(Worker w, x)])"
    "y = W_Exited \<longrightarrow> (Worker w, ExitLoop) \<in> set ext"
    "shutting_down q = shutting_down p"
  shows "teardown q"
proof (rule teardownI)
  note old = teardownD [OF assms(1)]
  have early: "lifecycle p = Alive \<or> lifecycle p = Joining"
    using old(2) assms(2) by (auto simp: joined_after_def)
  then have none: "drained (trace p) = []"
    and known: "\<forall>v. (Worker v, Started) \<in> set (trace p) \<longrightarrow> v < length (threads p)"
    using old(1) by (auto simp: quiet_before_def)
  have d: "drained (trace q) = []"
    using none assms(6) unfolding assms(5) by (auto simp: drained_empty)
  have "v < length (threads p)" if "(Worker v, Started) \<in> set (trace q)" for v
    using that known assms(2,6) unfolding assms(5) by auto
  then show "quiet_before q" using d by (simp add: quiet_before_def assms(4))
  show "joined_after q" using early by (auto simp: joined_after_def assms(3))
  show "exits_logged q"
    unfolding exits_logged_def
  proof (intro allI impI)
    fix v assume v: "v < length (threads q)" "threads q ! v = W_Exited"
    show "(Worker v, ExitLoop) \<in> set (trace q)"
    proof (cases "v = w")
      case True
      then have "y = W_Exited" using v assms(2,4) by simp
      then show ?thesis using assms(7) True by (simp add: assms(5))
    next
      case False
      then have "threads p ! v = W_Exited" "v < length (threads p)"
        using v assms(4) by simp_all
      then show ?thesis using old(3) by (simp add: exits_logged_def assms(5))
    qed
  qed
  show "closing q" using old(4) by (simp add: closing_def assms(3,8))
  show "drain_after_exit (trace q)" using d by (rule drain_after_exit_none)
qed

lemma teardown_worker:
  assumes "worker_step H w p = Inr p'" "teardown p"
  shows "teardown p'"
  using assms(1)
proof (cases rule: worker_stepE)
  case exit
  show ?thesis
    by (rule teardown_worker_entry [OF assms(2) exit(1), where y = W_Exited
          and ext = "[(Worker w, ExitLoop)]"])
       (simp_all add: exit(4) at_loop_test_def)
next
  case (pop t ts)
  show ?thesis
    by (rule teardown_worker_entry [OF assms(2) pop(1), where y = "W_Task Fetched t"
          and ext = "[]"])
       (simp_all add: pop(7) at_loop_test_def)
next
  case wait
  show ?thesis
    by (rule teardown_worker_entry [OF assms(2) wait(1), where y = W_CondWait and ext = "[]"])
       (simp_all add: wait(5) at_loop_test_def)
next
  case (run t)
  show ?thesis
    by (rule teardown_worker_entry [OF assms(2) run(1), where y = "W_Task Running t"
          and ext = "[(Worker w, Run t)]"])
       (simp_all add: run(3))
next
  case (ran t)
  show ?thesis
    by (rule teardown_worker_entry [OF assms(2) ran(1), where y = "W_Task Ran t"
          and ext = "[]"])
       (simp_all add: ran(3))
next
  case (fin t)
  show ?thesis
    by (rule teardown_worker_entry [OF assms(2) fin(1), where y = W_GetTask
          and ext = "[(Worker w, Finalize t)]"])
       (simp_all add: fin(3))
qed

lemma teardown_caller:
  assumes "caller_step H c p = Inr p'" "teardown p"
  shows "teardown p'"
  using assms(1)
proof (cases rule: caller_stepE)
  case (run t)
  show ?thesis
    by (rule teardown_caller_entry [OF assms(2), where c = c and x = "Run t"])
       (simp_all add: run(3))
next
  case (fin t)
  show ?thesis
    by (rule teardown_caller_entry [OF assms(2), where c = c and x = "Finalize t"])
       (simp_all add: fin(3))
qed (rule teardown_same [OF assms(2)]; simp)+

lemma teardown_create:
  assumes "teardown p" "lifecycle p = Alive" "threads p = []"
    "p' = spawn (p\<lparr>shutting_down := False\<rparr>)"
  shows "teardown p'"
proof (rule teardownI)
  note old = teardownD [OF assms(1)]
  let ?new = "map (\<lambda>i. (Worker i, Started)) [0 ..< max_active_workers p]"
  have tr: "trace p' = trace p @ ?new" by (simp add: assms(3,4) trace_spawn)
  have th: "threads p' = replicate (max_active_workers p) W_GetTask"
    by (simp add: assms(3,4) threads_spawn)
  have lc: "lifecycle p' = Alive" by (simp add: assms(2,4))
  have none: "drained (trace p) = []"
    and fresh: "\<forall>w. (Worker w, Started) \<notin> set (trace p)"
    using old(1) assms(2,3) by (auto simp: quiet_before_def)
  have d: "drained (trace p') = []" using none by (simp add: tr)
  have "w < max_active_workers p" if "(Worker w, Started) \<in> set (trace p')" for w
    using that fresh by (auto simp: tr)
  then show "quiet_before p'" using d by (simp add: quiet_before_def th)
  show "joined_after p'" by (simp add: joined_after_def lc)
  show "exits_logged p'" by (simp add: exits_logged_def th)
  show "closing p'" by (simp add: closing_def lc)
  show "drain_after_exit (trace p')" using d by (rule drain_after_exit_none)
qed

lemma teardown_destructor:
  assumes "destructor_step p = Inr p'" "teardown p"
  shows "teardown p'"
proof -
  note old = teardownD [OF assms(2)]
  from assms(1) show ?thesis
  proof (cases rule: destructor_stepE)
    case shutdown
    show ?thesis
    proof (rule teardownI)
      show "quiet_before p'" using old(1) shutdown by (simp add: quiet_before_def)
      show "joined_after p'" using shutdown by (simp add: joined_after_def)
      show "exits_logged p'" using old(3) shutdown by (simp add: exits_logged_def)
      show "closing p'" using shutdown by (simp add: closing_def)
      show "drain_after_exit (trace p')" using old(5) shutdown by simp
    qed
  next
    case join
    have none: "drained (trace p) = []"
      and known: "\<forall>w. (Worker w, Started) \<in> set (trace p) \<longrightarrow> w < length (threads p)"
      using old(1) join(1) by (auto simp: quiet_before_def)
    have gone: "(Worker w, ExitLoop) \<in> set (trace p)"
      if "(Worker w, Started) \<in> set (trace p)" for w
    proof -
      have "w < length (threads p)" using that known by blast
      moreover from this have "threads p ! w = W_Exited"
        using join(2) by (simp add: list_all_length)
      ultimately show ?thesis using old(3) by (simp add: exits_logged_def)
    qed
    show ?thesis
    proof (rule teardownI)
      show "quiet_before p'" using join by (simp add: quiet_before_def)
      show "joined_after p'" using gone join by (simp add: joined_after_def)
      show "exits_logged p'" using join by (simp add: exits_logged_def)
      show "closing p'" using old(4) join by (simp add: closing_def)
      show "drain_after_exit (trace p')" using old(5) join by simp
    qed
  next
    case (pop t ts)
    show ?thesis
    proof (rule teardownI)
      show "quiet_before p'" using pop by (simp add: quiet_before_def)
      show "joined_after p'" using old(2) pop by (simp add: joined_after_def)
      show "exits_logged p'" using old(3) pop by (simp add: exits_logged_def)
      show "closing p'" using old(4) pop by (simp add: closing_def)
      show "drain_after_exit (trace p')" using old(5) pop by simp
    qed
  next
    case finished
    show ?thesis
    proof (rule teardownI)
      show "quiet_before p'" using finished by (simp add: quiet_before_def)
      show "joined_after p'" using old(2) finished by (simp add: joined_after_def)
      show "exits_logged p'" using old(3) finished by (simp add: exits_logged_def)
      show "closing p'" using old(4) finished by (simp add: closing_def)
      show "drain_after_exit (trace p')" using old(5) finished by simp
    qed
  next
    case (fin t)
    have j: "threads p = []"
      "\<forall>w. (Worker w, Started) \<in> set (trace p) \<longrightarrow> (Worker w, ExitLoop) \<in> set (trace p)"
      using old(2) fin(1) by (auto simp: joined_after_def)
    show ?thesis
    proof (rule teardownI)
      show "quiet_before p'" using fin by (simp add: quiet_before_def)
      show "joined_after p'" using j fin by (simp add: joined_after_def)
      show "exits_logged p'" using j fin by (simp add: exits_logged_def)
      show "closing p'" using old(4) fin by (simp add: closing_def)
      show "drain_after_exit (trace p')"
        unfolding fin(2) using drain_after_exit_drain [OF old(5) j(2)] by simp
    qed
  qed
qed

lemma teardown_step:
  assumes "step H e p = Inr p'" "teardown p"
  shows "teardown p'"
  using assms(1)
proof (cases rule: stepE)
  case create
  then show ?thesis using assms(2) teardown_create by blast
next
  case (enter c do_work may_hold_locks)
  from enter(2) show ?thesis
    by (cases rule: Wait_enterE) (rule teardown_same [OF assms(2)]; simp)
next
  case (caller c)
  then show ?thesis using assms(2) teardown_caller by blast
next
  case (worker w)
  then show ?thesis using assms(2) teardown_worker by blast
next
  case destructor
  then show ?thesis using assms(2) teardown_destructor by blast
qed (rule teardown_same [OF assms(2)]; simp)+

lemma teardown_run:
  assumes "run H es (AbstractThreadPool n peers k) = Inr s"
  shows "teardown s"
proof -
  have "teardown (AbstractThreadPool n peers k)"
    by (rule teardownI)
       (simp_all add: quiet_before_def joined_after_def exits_logged_def closing_def
         drain_after_exit_none AbstractThreadPool_def)
  with teardown_step show ?thesis using assms by (rule run_invariant [where I = teardown])
qed

text \<open>
  C10, as amended.  In every run in which no task is submitted twice: the first step of
  the destructor, the locked block of \<open>DeleteThreads\<close>, sets \<open>shutting_down_\<close> and
  broadcasts \<open>task_queue_condition_\<close> and \<open>completion_condition_\<close>, and \<open>shutting_down_\<close>
  stays set from then on; while it is set, a worker that calls \<open>GetTask\<close> or wakes up
  in it takes no task and leaves its loop; the destructor gets from the join to
  \<open>RemoveAllTasks\<close> only when every worker has left its loop, and from then on no
  worker is left, so no worker can take a step: only the destructor and threads inside
  \<open>Wait(do_work = true)\<close> take tasks out of the queue or call \<open>Run\<close> past the join; a
  task is drained only past the join; before any \<open>Finalize\<close> of the drain every worker
  thread ever started has left its loop, and after it no worker does anything; and no
  drained task is ever run.
\<close>

theorem drain_only_after_join:
  assumes "run H es (AbstractThreadPool n peers k) = Inr s" and "distinct (submitted s)"
  shows "(lifecycle s \<noteq> Alive \<longrightarrow> shutting_down s)
    \<and> (lifecycle s = Alive \<longrightarrow>
          destructor_step s =
            Inr (s\<lparr>shutting_down := True, lifecycle := Joining,
                   notified := notified s @ [Broadcast task_queue_condition,
                                             Broadcast completion_condition]\<rparr>))
    \<and> (\<forall>w s'. shutting_down s \<and> worker_step H w s = Inr s'
            \<and> (threads s ! w = W_GetTask \<or> threads s ! w = W_CondWait) \<longrightarrow>
          threads s' ! w = W_Exited \<and> tasks s' = tasks s \<and> dequeued s' = dequeued s)
    \<and> (\<forall>s'. lifecycle s = Joining \<and> destructor_step s = Inr s' \<longrightarrow>
          list_all (\<lambda>w. w = W_Exited) (threads s) \<and> lifecycle s' = Draining
          \<and> tasks s' = tasks s \<and> trace s' = trace s)
    \<and> (lifecycle s \<noteq> Alive \<and> lifecycle s \<noteq> Joining \<longrightarrow> threads s = [])
    \<and> (\<forall>w s'. worker_step H w s = Inr s' \<longrightarrow> lifecycle s = Alive \<or> lifecycle s = Joining)
    \<and> (\<forall>e s'. lifecycle s \<noteq> Alive \<and> lifecycle s \<noteq> Joining \<and> step H e s = Inr s'
            \<and> (dequeued s' \<noteq> dequeued s \<or> run_calls (trace s') \<noteq> run_calls (trace s)) \<longrightarrow>
          e = E_Destructor \<or> (\<exists>c. e = E_Caller c \<and> c < length (callers s)
                                   \<and> outside_work_loop (callers s ! c) = False))
    \<and> (drained (trace s) \<noteq> [] \<longrightarrow> lifecycle s \<noteq> Alive \<and> lifecycle s \<noteq> Joining)
    \<and> drain_after_exit (trace s)
    \<and> set (drained (trace s)) \<inter> set (run_calls (trace s)) = {}"
proof -
  note t = teardownD [OF teardown_run [OF assms(1)]]
  have inv: "task_inv s" using assms(1) by (rule task_inv_run)
  have a: "lifecycle s \<noteq> Alive \<longrightarrow> shutting_down s"
    using t(4) by (simp add: closing_def)
  have b: "lifecycle s = Alive \<longrightarrow>
      destructor_step s =
        Inr (s\<lparr>shutting_down := True, lifecycle := Joining,
               notified := notified s @ [Broadcast task_queue_condition,
                                         Broadcast completion_condition]\<rparr>)"
    by (simp add: destructor_step_def DeleteThreads_locked_def notify_def)
  have c: "list_all (\<lambda>w. w = W_Exited) (threads s) \<and> lifecycle s' = Draining
      \<and> tasks s' = tasks s \<and> trace s' = trace s"
    if "lifecycle s = Joining \<and> destructor_step s = Inr s'" for s'
  proof -
    from that have "destructor_step s = Inr s'" ..
    then show ?thesis by (cases rule: destructor_stepE) (use that in auto)
  qed
  have d: "lifecycle s \<noteq> Alive \<and> lifecycle s \<noteq> Joining \<longrightarrow> threads s = []"
    using t(2) by (simp add: joined_after_def)
  have e: "lifecycle s = Alive \<or> lifecycle s = Joining" if "worker_step H w s = Inr s'" for w s'
  proof -
    have "w < length (threads s)" using that by (cases rule: worker_stepE) simp_all
    then show ?thesis using d by auto
  qed
  have f: "drained (trace s) \<noteq> [] \<longrightarrow> lifecycle s \<noteq> Alive \<and> lifecycle s \<noteq> Joining"
    using t(1) by (auto simp: quiet_before_def)
  have g: "\<not> (x \<in> set (drained (trace s)) \<and> x \<in> set (run_calls (trace s)))" for x
  proof
    assume h: "x \<in> set (drained (trace s)) \<and> x \<in> set (run_calls (trace s))"
    then have "0 < count (mset (drained (trace s))) x" by simp
    moreover have "count_list (run_calls (trace s)) x \<noteq> 0"
      using h by (simp add: count_list_0_iff)
    moreover have "of_bool (x \<in> set (submitted s)) \<le> (1::nat)" by simp
    ultimately show False
      using one_place [OF inv assms(2), of x] count_ran [OF inv, of x] by linarith
  qed
  have h: "e = E_Destructor \<or> (\<exists>c. e = E_Caller c \<and> c < length (callers s)
                                   \<and> outside_work_loop (callers s ! c) = False)"
    if "lifecycle s \<noteq> Alive \<and> lifecycle s \<noteq> Joining \<and> step H e s = Inr s'
        \<and> (dequeued s' \<noteq> dequeued s \<or> run_calls (trace s') \<noteq> run_calls (trace s))"
    for e s'
  proof -
    from that have st: "step H e s = Inr s'"
      and ch: "dequeued s' \<noteq> dequeued s \<or> run_calls (trace s') \<noteq> run_calls (trace s)"
      and past: "lifecycle s \<noteq> Alive" "lifecycle s \<noteq> Joining"
      by blast+
    from st show ?thesis
    proof (cases rule: stepE)
      case (enter c do_work may_hold_locks)
      from enter(2) show ?thesis by (cases rule: Wait_enterE) (use ch in simp)
    next
      case (caller c)
      from caller(2) show ?thesis
        by (cases rule: caller_stepE) (use ch caller(1) in auto)
    next
      case (worker w)
      then show ?thesis using e past by blast
    qed (use ch past in auto)
  qed
  have x: "threads s' ! w = W_Exited \<and> tasks s' = tasks s \<and> dequeued s' = dequeued s"
    if "shutting_down s \<and> worker_step H w s = Inr s'
        \<and> (threads s ! w = W_GetTask \<or> threads s ! w = W_CondWait)" for w s'
  proof -
    from that have "worker_step H w s = Inr s'" by blast
    then show ?thesis
      by (cases rule: worker_stepE) (use that in \<open>auto simp: at_loop_test_def\<close>)
  qed
  from a b x c d e h f t(5) g show ?thesis by blast
qed

text \<open>
  C10 as stated fails for the threads inside \<open>Wait\<close>: \<open>TryGetTask\<close> does not test
  \<open>shutting_down_\<close>.  In this run the destructor has joined the worker and taken task 1
  out of the queue; before it calls \<open>Finalize\<close> on it, the thread in the loop of
  \<open>Wait(do_work = true)\<close> takes task 2 and calls \<open>Run\<close> on it.  The run is the same
  whether \<open>HasOutstandingTasks()\<close> answers for a started pool only or for any pool.
\<close>

theorem Wait_takes_tasks_during_drain:
  "run HasOutstandingTasks race_example (AbstractThreadPool 1 False 1) = Inr race_state
   \<and> run (\<lambda>p. tasks p \<noteq> []) race_example (AbstractThreadPool 1 False 1) = Inr race_state
   \<and> shutting_down race_state \<and> threads race_state = []
   \<and> lifecycle race_state = Finalizing 1 \<and> callers race_state = [C_Task Running 2]
   \<and> dequeued race_state = [(Destructor, 1), (Caller 0, 2)]
   \<and> trace race_state = [(Worker 0, Started), (Worker 0, ExitLoop), (Caller 0, Run 2)]
   \<and> step HasOutstandingTasks E_Destructor race_state
       = Inr (race_state\<lparr>lifecycle := Draining,
                trace := [(Worker 0, Started), (Worker 0, ExitLoop), (Caller 0, Run 2),
                          (Destructor, Finalize 1)]\<rparr>)"
  by code_simp

text \<open>The run of the destructor: \<open>StartWorkers\<close> broadcasts, the destructor broadcasts
  both conditions, the worker finalizes task 1 and leaves its loop, then tasks 2 and 3
  are drained.\<close>

theorem drain_only_after_join_witness:
  "run HasOutstandingTasks teardown_example (AbstractThreadPool 1 False 0)
     = Inr teardown_state
   \<and> distinct (submitted teardown_state) \<and> lifecycle teardown_state = Destroyed
   \<and> trace teardown_state = [(Worker 0, Started), (Worker 0, Run 1), (Worker 0, Finalize 1),
        (Worker 0, ExitLoop), (Destructor, Finalize 2), (Destructor, Finalize 3)]
   \<and> notified teardown_state = [Broadcast task_queue_condition,
        Broadcast task_queue_condition, Broadcast completion_condition]
   \<and> shutting_down teardown_state \<and> threads teardown_state = []
   \<and> drain_after_exit (trace teardown_state)
   \<and> set (drained (trace teardown_state)) \<inter> set (run_calls (trace teardown_state)) = {}"
proof -
  have r: "run HasOutstandingTasks teardown_example (AbstractThreadPool 1 False 0)
      = Inr teardown_state"
    by code_simp
  have v: "submitted teardown_state = [1, 2, 3]" "lifecycle teardown_state = Destroyed"
    "trace teardown_state = [(Worker 0, Started), (Worker 0, Run 1), (Worker 0, Finalize 1),
        (Worker 0, ExitLoop), (Destructor, Finalize 2), (Destructor, Finalize 3)]"
    "notified teardown_state = [Broadcast task_queue_condition,
        Broadcast task_queue_condition, Broadcast completion_condition]"
    by code_simp+
  have d: "distinct (submitted teardown_state)" by (simp add: v)
  have l: "lifecycle teardown_state \<noteq> Alive" "lifecycle teardown_state \<noteq> Joining"
    by (simp_all add: v)
  note full = drain_only_after_join [OF r d]
  from full l have "shutting_down teardown_state" "threads teardown_state = []" by blast+
  moreover from full have "drain_after_exit (trace teardown_state)"
    "set (drained (trace teardown_state)) \<inter> set (run_calls (trace teardown_state)) = {}"
    by blast+
  ultimately show ?thesis using r d v by blast
qed

section \<open>Every task is finalized exactly once\<close>









section \<open>Waiting for the pool to be idle\<close>

lemma all_waiting:
  "sum_list (map is_waiting ws) = length ws \<longleftrightarrow> list_all (\<lambda>w. w = W_CondWait) ws"
proof (induction ws)
  case Nil
  then show ?case by simp
next
  case (Cons w ws)
  have le: "sum_list (map is_waiting ws) \<le> length ws"
    using busy_or_waiting [of ws] by simp
  show ?case using Cons le by (cases w) auto
qed

lemma counted_idle:
  assumes "counted p"
  shows "Wait_blocks HasOutstandingTasks p \<longleftrightarrow> \<not> idle p"
  using assms all_waiting [of "threads p"]
  by (auto simp: counted_def waiting_def Wait_blocks_def idle_def HasOutstandingTasks_def
      GetThreadCount_def)

lemma leave_Wait:
  assumes "step H e s = Inr s'" "c < length (callers s)"
    "callers s ! c \<noteq> C_Outside" "callers s' ! c = C_Outside"
  shows "e = E_Caller c \<and> (callers s ! c = C_Check \<or> callers s ! c = C_CondWait)
    \<and> \<not> Wait_blocks H s"
  using assms(1)
proof (cases rule: stepE)
  case (enter c' do_work may_hold_locks)
  from enter(2) show ?thesis
    by (cases rule: Wait_enterE) (use assms(2-4) in \<open>auto simp: nth_list_update split: if_splits\<close>)
next
  case (caller c')
  from caller(2) show ?thesis
    by (cases rule: caller_stepE)
       (use assms(2-4) caller(1) in \<open>auto simp: nth_list_update split: if_splits\<close>)
next
  case (worker w)
  from worker(2) show ?thesis
    by (cases rule: worker_stepE) (use assms(3,4) in \<open>auto simp: at_loop_test_def\<close>)
next
  case destructor
  from destructor(2) show ?thesis
    by (cases rule: destructor_stepE) (use assms(3,4) in auto)
qed (use assms(3,4) in auto)

lemma test_Wait:
  assumes "caller_step H c s = Inr s'"
    "callers s ! c = C_Check \<or> callers s ! c = C_CondWait"
  shows "(Wait_blocks H s \<longrightarrow> callers s' ! c = C_CondWait)
    \<and> (\<not> Wait_blocks H s \<longrightarrow> callers s' ! c = C_Outside)"
  using assms(1) by (cases rule: caller_stepE) (use assms(2) in auto)

lemma Wait_enabled:
  assumes "c < length (callers s)" "callers s ! c = C_Check \<or> callers s ! c = C_CondWait"
    "lifecycle s \<noteq> Destroyed"
  shows "\<exists>s''. caller_step H c s = Inr s''"
  using assms by (auto simp: caller_step_def Wait_check_def)

lemma broadcast_step:
  assumes "step HasOutstandingTasks e s = Inr s'" "counted s"
  shows "Broadcast completion_condition \<in> set (news s s') \<longleftrightarrow>
      (e = E_Destructor \<and> lifecycle s = Alive)
      \<or> ((\<exists>w. e = E_Worker w) \<and> list_all (\<lambda>w. w = W_CondWait) (threads s')
          \<and> (tasks s' = [] \<or> \<not> started s'))"
proof -
  have c': "counted s'" using assms by (rule counted_step)
  have full: "waiting_count s' = length (threads s') \<longleftrightarrow>
      list_all (\<lambda>w. w = W_CondWait) (threads s')"
    using c' all_waiting [of "threads s'"] by (simp add: counted_def waiting_def)
  from assms(1) show ?thesis
  proof (cases rule: stepE)
    case (enter c do_work may_hold_locks)
    from enter(2) show ?thesis
      by (cases rule: Wait_enterE) (use enter(1) in \<open>simp add: news_def\<close>)
  next
    case (caller c)
    from caller(2) show ?thesis
      by (cases rule: caller_stepE) (use caller(1) in \<open>simp_all add: news_def\<close>)
  next
    case (worker w)
    from worker(2) show ?thesis
    proof (cases rule: worker_stepE)
      case wait
      have "waiting_count s' = waiting_count (at_loop_test w s) + 1"
        "length (threads s') = length (threads s)"
        "tasks s' = tasks s" "started s' = started s"
        using wait(5) by (simp_all add: at_loop_test_def)
      then show ?thesis using full worker(1) wait(5)
        by (auto simp: news_def HasOutstandingTasks_def at_loop_test_def)
    next
      case exit
      have "threads s' ! w = W_Exited" using exit by simp
      then have "\<not> list_all (\<lambda>w. w = W_CondWait) (threads s')"
        using exit(1,4) by (auto simp: list_all_length)
      then show ?thesis using worker(1) exit(4) by (simp add: news_def at_loop_test_def)
    next
      case (pop t ts)
      have "threads s' ! w = W_Task Fetched t" using pop by simp
      then have "\<not> list_all (\<lambda>w. w = W_CondWait) (threads s')"
        using pop(1,7) by (auto simp: list_all_length)
      then show ?thesis using worker(1) pop(7) by (simp add: news_def at_loop_test_def)
    next
      case (run t)
      have "threads s' ! w = W_Task Running t" using run by simp
      then have "\<not> list_all (\<lambda>w. w = W_CondWait) (threads s')"
        using run(1,3) by (auto simp: list_all_length)
      then show ?thesis using worker(1) run(3) by (simp add: news_def)
    next
      case (ran t)
      have "threads s' ! w = W_Task Ran t" using ran by simp
      then have "\<not> list_all (\<lambda>w. w = W_CondWait) (threads s')"
        using ran(1,3) by (auto simp: list_all_length)
      then show ?thesis using worker(1) ran(3) by (simp add: news_def)
    next
      case (fin t)
      have "threads s' ! w = W_GetTask" using fin by simp
      then have "\<not> list_all (\<lambda>w. w = W_CondWait) (threads s')"
        using fin(1,3) by (auto simp: list_all_length)
      then show ?thesis using worker(1) fin(3) by (simp add: news_def)
    qed
  next
    case destructor
    from destructor(2) show ?thesis
      by (cases rule: destructor_stepE) (use destructor(1) in \<open>simp_all add: news_def\<close>)
  qed (simp_all add: news_def)
qed

lemma idle_step:
  assumes "step HasOutstandingTasks e s = Inr s'" "counted s" "closing s"
    "\<not> idle s" "idle s'"
  shows "Broadcast completion_condition \<in> set (news s s') \<or> e = E_StopWorkers
    \<or> (\<exists>c. e = E_Caller c \<and> callers s ! c = C_TryGetTask)"
proof -
  note b = broadcast_step [OF assms(1,2)]
  from assms(1) show ?thesis
  proof (cases rule: stepE)
    case (add t)
    then show ?thesis using assms(4,5) by (auto simp: idle_def)
  next
    case create
    then show ?thesis using assms(4,5)
      by (auto simp: idle_def threads_spawn list_all_length)
  next
    case (setmax m)
    then show ?thesis using assms(4,5) by (auto simp: idle_def)
  next
    case start
    then show ?thesis using assms(4,5) by (auto simp: idle_def)
  next
    case stop
    then show ?thesis by simp
  next
    case (enter c do_work may_hold_locks)
    from enter(2) show ?thesis
      by (cases rule: Wait_enterE) (use assms(4,5) in \<open>auto simp: idle_def\<close>)
  next
    case (caller c)
    from caller(2) show ?thesis
      by (cases rule: caller_stepE) (use assms(4,5) caller(1) in \<open>auto simp: idle_def\<close>)
  next
    case (worker w)
    have "\<not> shutting_down s'"
      using worker(2) assms(4)
      by (cases rule: worker_stepE) (auto simp: idle_def at_loop_test_def)
    then show ?thesis using assms(5) b worker(1) by (auto simp: idle_def)
  next
    case destructor
    from destructor(2) show ?thesis
      by (cases rule: destructor_stepE)
         (use assms(3,4) b destructor(1) in \<open>auto simp: idle_def closing_def\<close>)
  qed
qed

text \<open>
  C6, as amended.  In every run of the pool: the condition of line 328 is false exactly
  when \<open>shutting_down_\<close> is set or every worker is inside the condition wait of \<open>GetTask\<close>
  (\<open>waiting_count_\<close> is the number of workers) with no outstanding task, which is a
  queue that is empty or a pool that is not started; a thread leaves \<open>Wait\<close> only by its
  own test of that condition, on entry or after a wake-up, and only if it finds it so; a
  thread that makes the test and finds it so returns, and otherwise waits; and a thread
  inside \<open>Wait\<close> can make the test whenever it is woken.  \<open>completion_condition_\<close> is
  broadcast by the first step of the destructor and by a worker in \<open>GetTask\<close> that goes
  to wait and leaves every worker waiting with no outstanding task, and by no other
  step.  So when the pool becomes idle a broadcast wakes the threads inside \<open>Wait\<close>,
  unless it becomes idle by \<open>StopWorkers\<close> or by a pop of a thread in the loop of
  \<open>Wait(do_work = true)\<close>, which notify nobody.
\<close>

theorem Wait_returns_when_idle:
  assumes "run HasOutstandingTasks es (AbstractThreadPool n peers k) = Inr s"
    and "step HasOutstandingTasks e s = Inr s'"
  shows "(Wait_blocks HasOutstandingTasks s \<longleftrightarrow> \<not> idle s)
    \<and> (\<forall>c < length (callers s).
            callers s ! c \<noteq> C_Outside \<and> callers s' ! c = C_Outside \<longrightarrow>
              e = E_Caller c \<and> (callers s ! c = C_Check \<or> callers s ! c = C_CondWait)
              \<and> idle s)
    \<and> (\<forall>c < length (callers s).
            e = E_Caller c \<and> (callers s ! c = C_Check \<or> callers s ! c = C_CondWait) \<longrightarrow>
              (idle s \<longrightarrow> callers s' ! c = C_Outside)
              \<and> (\<not> idle s \<longrightarrow> callers s' ! c = C_CondWait))
    \<and> (\<forall>c < length (callers s).
            (callers s ! c = C_Check \<or> callers s ! c = C_CondWait)
            \<and> lifecycle s \<noteq> Destroyed \<longrightarrow>
              (\<exists>s''. step HasOutstandingTasks (E_Caller c) s = Inr s''))
    \<and> (Broadcast completion_condition \<in> set (news s s') \<longleftrightarrow>
          (e = E_Destructor \<and> lifecycle s = Alive)
          \<or> ((\<exists>w. e = E_Worker w) \<and> list_all (\<lambda>w. w = W_CondWait) (threads s')
              \<and> (tasks s' = [] \<or> \<not> started s')))
    \<and> (\<not> idle s \<and> idle s' \<longrightarrow>
          Broadcast completion_condition \<in> set (news s s') \<or> e = E_StopWorkers
          \<or> (\<exists>c. e = E_Caller c \<and> callers s ! c = C_TryGetTask))"
proof -
  have c: "counted s" using assms(1) by (rule counted_run)
  have cl: "closing s" using teardownD(4) [OF teardown_run [OF assms(1)]] .
  note i = counted_idle [OF c]
  have 1: "e = E_Caller c \<and> (callers s ! c = C_Check \<or> callers s ! c = C_CondWait) \<and> idle s"
    if "c < length (callers s)" "callers s ! c \<noteq> C_Outside \<and> callers s' ! c = C_Outside" for c
    using leave_Wait [OF assms(2) that(1)] that(2) i by blast
  have 2: "(idle s \<longrightarrow> callers s' ! c = C_Outside) \<and> (\<not> idle s \<longrightarrow> callers s' ! c = C_CondWait)"
    if "e = E_Caller c \<and> (callers s ! c = C_Check \<or> callers s ! c = C_CondWait)" for c
  proof -
    from that assms(2) have "caller_step HasOutstandingTasks c s = Inr s'"
      by (simp add: step_def)
    from test_Wait [OF this] that i show ?thesis by blast
  qed
  have 3: "\<exists>s''. step HasOutstandingTasks (E_Caller c) s = Inr s''"
    if "c < length (callers s)"
      "(callers s ! c = C_Check \<or> callers s ! c = C_CondWait) \<and> lifecycle s \<noteq> Destroyed" for c
    using Wait_enabled [of c s HasOutstandingTasks] that by (simp add: step_def)
  note 4 = broadcast_step [OF assms(2) c]
  have 5: "\<not> idle s \<and> idle s' \<longrightarrow>
          Broadcast completion_condition \<in> set (news s s') \<or> e = E_StopWorkers
          \<or> (\<exists>c. e = E_Caller c \<and> callers s ! c = C_TryGetTask)"
    using idle_step [OF assms(2) c cl] by blast
  from i 1 2 3 4 5 show ?thesis by blast
qed

text \<open>
  C6 as stated fails, in both directions.  A pool with one worker is not started and has
  task 5 queued; the worker waits, and broadcasts as the last worker to wait; a thread
  calls \<open>Wait\<close> and returns at once, with the queue not empty and the pool not shutting
  down.  And a started pool with one worker and a cap of zero has task 1 queued and the
  worker waiting; a thread calls \<open>Wait(do_work = false)\<close> and blocks; a second thread
  calls \<open>Wait(do_work = true)\<close>, takes task 1, runs it and returns from \<open>Wait\<close>.  From
  its pop on, the worker waits and the queue is empty, yet nothing has been notified
  since the first thread blocked, and it is still blocked.  This second run is the same
  whether \<open>HasOutstandingTasks()\<close> answers for a started pool only or for any pool.
  Likewise, had \<open>StopWorkers\<close> been called while the first thread was blocked, the
  condition of line 328 would have become false with nothing notified.
\<close>

theorem Wait_returns_early_and_sleeps_on:
  "run HasOutstandingTasks stopped_example (AbstractThreadPool 1 False 1) = Inr stopped_state
   \<and> callers stopped_state = [C_Check] \<and> tasks stopped_state = [5]
   \<and> \<not> shutting_down stopped_state \<and> \<not> started stopped_state
   \<and> notified stopped_state = [Broadcast completion_condition]
   \<and> caller_step HasOutstandingTasks 0 stopped_state
       = Inr (stopped_state\<lparr>callers := [C_Outside]\<rparr>)
   \<and> run HasOutstandingTasks unwoken_example (AbstractThreadPool 1 False 2)
       = Inr unwoken_before
   \<and> run (\<lambda>p. tasks p \<noteq> []) unwoken_example (AbstractThreadPool 1 False 2)
       = Inr unwoken_before
   \<and> callers unwoken_before = [C_CondWait, C_Outside] \<and> tasks unwoken_before = [1]
   \<and> run HasOutstandingTasks unwoken_rest unwoken_before = Inr unwoken_after
   \<and> run (\<lambda>p. tasks p \<noteq> []) unwoken_rest unwoken_before = Inr unwoken_after
   \<and> threads unwoken_after = [W_CondWait]
   \<and> waiting_count unwoken_after = GetThreadCount unwoken_after
   \<and> tasks unwoken_after = [] \<and> started unwoken_after \<and> \<not> shutting_down unwoken_after
   \<and> callers unwoken_after = [C_CondWait, C_Outside]
   \<and> notified unwoken_after = notified unwoken_before
   \<and> step HasOutstandingTasks E_StopWorkers unwoken_before
       = Inr (unwoken_before\<lparr>started := False\<rparr>)
   \<and> Wait_blocks HasOutstandingTasks unwoken_before
   \<and> \<not> Wait_blocks HasOutstandingTasks (unwoken_before\<lparr>started := False\<rparr>)"
  by code_simp

text \<open>
  A started pool of two workers with no task, and a thread inside \<open>Wait\<close> that has found
  one worker not yet waiting.  The second worker goes to wait: it is the last one and
  broadcasts.  The thread tests again and returns.
\<close>

theorem Wait_returns_when_idle_witness:
  "run HasOutstandingTasks idle_example (AbstractThreadPool 2 False 1) = Inr idle_last_worker
   \<and> step HasOutstandingTasks (E_Worker 1) idle_last_worker = Inr idle_reached
   \<and> threads idle_last_worker = [W_CondWait, W_GetTask]
   \<and> callers idle_last_worker = [C_CondWait]
   \<and> \<not> idle idle_last_worker \<and> idle idle_reached
   \<and> threads idle_reached = [W_CondWait, W_CondWait] \<and> tasks idle_reached = []
   \<and> Broadcast completion_condition \<in> set (news idle_last_worker idle_reached)
   \<and> run HasOutstandingTasks (idle_example @ [E_Worker 1]) (AbstractThreadPool 2 False 1)
       = Inr idle_reached
   \<and> step HasOutstandingTasks (E_Caller 0) idle_reached
       = Inr (idle_reached\<lparr>callers := [C_Outside]\<rparr>)"
proof -
  have r: "run HasOutstandingTasks idle_example (AbstractThreadPool 2 False 1)
      = Inr idle_last_worker"
    by code_simp
  have s: "step HasOutstandingTasks (E_Worker 1) idle_last_worker = Inr idle_reached"
    by code_simp
  have v: "threads idle_last_worker = [W_CondWait, W_GetTask]"
    "callers idle_last_worker = [C_CondWait]"
    "threads idle_reached = [W_CondWait, W_CondWait]" "tasks idle_reached = []"
    "\<not> shutting_down idle_last_worker" "callers idle_reached = [C_CondWait]"
    by code_simp+
  have i: "\<not> idle idle_last_worker" "idle idle_reached"
    by (simp_all add: idle_def v)
  have w: "(\<exists>w. E_Worker 1 = E_Worker w)
      \<and> list_all (\<lambda>w. w = W_CondWait) (threads idle_reached)
      \<and> (tasks idle_reached = [] \<or> \<not> started idle_reached)"
    by (simp add: v)
  from Wait_returns_when_idle [OF r s] w
  have b: "Broadcast completion_condition \<in> set (news idle_last_worker idle_reached)"
    by blast
  have r': "run HasOutstandingTasks (idle_example @ [E_Worker 1]) (AbstractThreadPool 2 False 1)
       = Inr idle_reached"
    using r s by (simp add: run_snoc)
  have s': "step HasOutstandingTasks (E_Caller 0) idle_reached
       = Inr (idle_reached\<lparr>callers := [C_Outside]\<rparr>)"
    by code_simp
  have "0 < length (callers idle_reached)"
    "E_Caller 0 = E_Caller 0
      \<and> (callers idle_reached ! 0 = C_Check \<or> callers idle_reached ! 0 = C_CondWait)"
    by (simp_all add: v)
  with Wait_returns_when_idle [OF r' s'] i(2)
  have "callers (idle_reached\<lparr>callers := [C_Outside]\<rparr>) ! 0 = C_Outside" by blast
  then show ?thesis using r s v i b r' s' by blast
qed

section \<open>The rendezvous of the barrier\<close>

lemma b_run_append:
  "b_run (es @ es') b = (case b_run es b of Inl f \<Rightarrow> Inl f | Inr b' \<Rightarrow> b_run es' b')"
  by (induction es arbitrary: b) (auto split: sum.splits)

lemma b_count_set_count [simp]: "b_count (set_count c b) = c"
  by (simp add: set_count_def)

lemma b_returns_set_count [simp]: "b_returns (set_count c b) = b_returns b"
  by (simp add: set_count_def)

lemma b_count_step:
  assumes "b_step e b = Inr b'" "\<not> is_init e"
  shows "b_count b' = b_count b + delta_of e"
  using assms
  by (cases e)
     (auto simp: b_increment_def b_pass_def b_increment_and_wait_def b_wait_or_return_def
       b_return_def b_resume_def b_timeout_def split: if_splits party.splits bool.splits)

lemma b_count_run:
  assumes "b_run es b = Inr b'" "\<forall>e \<in> set es. \<not> is_init e"
  shows "b_count b' = b_count b - net_decrements es"
  using assms
proof (induction es arbitrary: b)
  case Nil
  then show ?case by (simp add: net_decrements_def)
next
  case (Cons e es)
  from Cons.prems(1) obtain b1 where s: "b_step e b = Inr b1" and r: "b_run es b1 = Inr b'"
    by (auto split: sum.splits)
  have "b_count b1 = b_count b + delta_of e" using s Cons.prems(2) by (simp add: b_count_step)
  moreover have "b_count b' = b_count b1 - net_decrements es"
    using Cons.IH [OF r] Cons.prems(2) by simp
  ultimately show ?case by (simp add: net_decrements_def)
qed

lemma b_run_snoc:
  "b_run (es @ [e]) b = Inr b' \<longleftrightarrow> (\<exists>b1. b_run es b = Inr b1 \<and> b_step e b1 = Inr b')"
  by (auto simp: b_run_append split: sum.splits)

text \<open>A step adds at most one return, and a return without the timed out indicator
  only with \<open>count\<close> at most zero.\<close>

lemma b_returns_step:
  assumes "b_step e b = Inr b'"
  shows "b_returns b' = b_returns b
    \<or> (\<exists>i. b_returns b' = b_returns b @ [(i, True)])
    \<or> (\<exists>i. b_returns b' = b_returns b @ [(i, False)] \<and> b_count b' \<le> 0)"
proof (cases e)
  case (B_Init c)
  then show ?thesis using assms by (auto simp: b_init_def split: if_splits)
next
  case (B_Increment d)
  then show ?thesis using assms by (auto simp: b_increment_def)
next
  case B_Pass
  then show ?thesis using assms by (auto simp: b_pass_def b_increment_def)
next
  case (B_Wait i)
  then show ?thesis using assms
    by (auto simp: b_increment_and_wait_def b_wait_or_return_def b_return_def split: if_splits)
next
  case (B_IncrementAndWait i d)
  then show ?thesis using assms
    by (auto simp: b_increment_and_wait_def b_wait_or_return_def b_return_def split: if_splits)
next
  case (B_IncrementTimed i d)
  then show ?thesis using assms
    by (auto simp: b_increment_and_wait_def b_wait_or_return_def b_return_def split: if_splits)
next
  case (B_Resume i)
  then show ?thesis using assms
    by (auto simp: b_resume_def b_wait_or_return_def b_return_def
        split: if_splits party.splits)
next
  case (B_Timeout i)
  then show ?thesis using assms
    by (auto simp: b_timeout_def b_return_def split: if_splits party.splits bool.splits)
qed

lemma wake_all: "list_all (\<lambda>x. x \<noteq> Blocked True \<and> x \<noteq> Blocked False) (map wake xs)"
proof (induction xs)
  case Nil
  then show ?case by simp
next
  case (Cons x xs)
  then show ?case by (cases x) simp_all
qed

lemma released_set_count: "released_at_zero (set_count c b)"
  by (simp add: released_at_zero_def set_count_def wake_all)

lemma released_return:
  assumes "released_at_zero b"
  shows "released_at_zero (b_return i t b)"
  using assms by (simp add: released_at_zero_def b_return_def list_all_update)

lemma released_wait_or_return:
  assumes "released_at_zero b"
  shows "released_at_zero (b_wait_or_return i t b)"
proof (cases "0 < b_count b")
  case True
  then show ?thesis by (simp add: released_at_zero_def b_wait_or_return_def)
next
  case False
  then show ?thesis using assms by (simp add: b_wait_or_return_def released_return)
qed

lemma released_step:
  assumes "b_step e b = Inr b'" "released_at_zero b"
  shows "released_at_zero b'"
proof (cases e)
  case (B_Init c)
  then show ?thesis using assms(1) by (auto simp: b_init_def released_set_count split: if_splits)
next
  case (B_Increment d)
  then show ?thesis using assms(1) by (auto simp: b_increment_def released_set_count)
next
  case B_Pass
  then show ?thesis using assms(1) by (auto simp: b_pass_def b_increment_def released_set_count)
next
  case (B_Wait i)
  then show ?thesis using assms(1)
    by (auto simp: b_increment_and_wait_def released_set_count released_wait_or_return
        split: if_splits)
next
  case (B_IncrementAndWait i d)
  then show ?thesis using assms(1)
    by (auto simp: b_increment_and_wait_def released_set_count released_wait_or_return
        split: if_splits)
next
  case (B_IncrementTimed i d)
  then show ?thesis using assms(1)
    by (auto simp: b_increment_and_wait_def released_set_count released_wait_or_return
        split: if_splits)
next
  case (B_Resume i)
  then show ?thesis using assms
    by (auto simp: b_resume_def released_wait_or_return split: if_splits party.splits)
next
  case (B_Timeout i)
  then show ?thesis using assms
    by (auto simp: b_timeout_def released_return split: if_splits party.splits bool.splits)
qed

lemma released_run:
  assumes "b_run es b = Inr b'" "released_at_zero b"
  shows "released_at_zero b'"
  using assms
proof (induction es arbitrary: b)
  case Nil
  then show ?case by simp
next
  case (Cons e es)
  then show ?case by (auto split: sum.splits dest: released_step)
qed

lemma b_length_step:
  assumes "b_step e b = Inr b'"
  shows "length (b_parties b') = length (b_parties b)"
  using assms
  by (cases e)
     (auto simp: b_init_def b_increment_def b_pass_def b_increment_and_wait_def
       b_wait_or_return_def b_return_def b_resume_def b_timeout_def set_count_def
       split: if_splits party.splits bool.splits)

lemma b_news_step:
  assumes "b_step e b = Inr b'"
  shows "b_returns b' = b_returns b @ b_news b b'"
  using b_returns_step [OF assms] by (auto simp: b_news_def)

lemma b_news_app: "b_returns b' = b_returns b @ xs \<Longrightarrow> b_news b b' = xs"
  by (simp add: b_news_def)

lemma b_news_run:
  assumes "b_run es b = Inr b'"
  shows "b_returns b' = b_returns b @ b_news b b'"
  using assms
proof (induction es arbitrary: b' rule: rev_induct)
  case Nil
  then show ?case by (simp add: b_news_def)
next
  case (snoc e es)
  from snoc.prems obtain b1 where r: "b_run es b = Inr b1" and s: "b_step e b1 = Inr b'"
    unfolding b_run_snoc by blast
  have "b_returns b' = b_returns b @ b_news b b1 @ b_news b1 b'"
    using snoc.IH [OF r] b_news_step [OF s] by simp
  then show ?case using b_news_app by metis
qed

text \<open>A waiting call returns without the timed out indicator only by a step that leaves
  \<open>count\<close> at most zero.\<close>

lemma b_news_count:
  assumes "b_run es b = Inr b'" "(i, False) \<in> set (b_news b b')"
  shows "\<exists>es1 b1. prefix es1 es \<and> es1 \<noteq> [] \<and> b_run es1 b = Inr b1 \<and> b_count b1 \<le> 0"
  using assms
proof (induction es arbitrary: b' rule: rev_induct)
  case Nil
  then show ?case by (simp add: b_news_def)
next
  case (snoc e es)
  from snoc.prems(1) obtain b1 where r: "b_run es b = Inr b1" and s: "b_step e b1 = Inr b'"
    unfolding b_run_snoc by blast
  have "b_returns b' = b_returns b @ b_news b b1 @ b_news b1 b'"
    using b_news_run [OF r] b_news_step [OF s] by simp
  then have n: "b_news b b' = b_news b b1 @ b_news b1 b'" by (rule b_news_app)
  show ?case
  proof (cases "(i, False) \<in> set (b_news b b1)")
    case True
    from snoc.IH [OF r True] obtain es1 b2 where "prefix es1 es" "es1 \<noteq> []"
      "b_run es1 b = Inr b2" "b_count b2 \<le> 0"
      by blast
    moreover from this have "prefix es1 (es @ [e])" by (simp add: prefix_prefix)
    ultimately show ?thesis by blast
  next
    case False
    then have "(i, False) \<in> set (b_news b1 b')" using snoc.prems(2) n by simp
    with b_returns_step [OF s] have "b_count b' \<le> 0" by (auto simp: b_news_def)
    moreover have "prefix (es @ [e]) (es @ [e])" "es @ [e] \<noteq> []" by simp_all
    ultimately show ?thesis using snoc.prems(1) by blast
  qed
qed

text \<open>A blocked thread stays blocked through a step that does not leave \<open>count\<close> at zero,
  its own timeout apart.\<close>

lemma blocked_step:
  assumes "b_step e b = Inr b'" "i < length (b_parties b)" "b_parties b ! i = Blocked timed"
    "\<not> is_init e" "e \<noteq> B_Timeout i" "b_count b' \<noteq> 0"
  shows "b_parties b' ! i = Blocked timed \<and> returns_of i (b_returns b') = returns_of i (b_returns b)"
proof (cases e)
  case (B_Init c)
  then show ?thesis using assms(4) by simp
next
  case (B_Increment d)
  then show ?thesis using assms by (auto simp: b_increment_def set_count_def)
next
  case B_Pass
  then show ?thesis using assms by (auto simp: b_pass_def b_increment_def set_count_def)
next
  case (B_Wait j)
  then show ?thesis using assms
    by (auto simp: b_increment_and_wait_def b_wait_or_return_def b_return_def set_count_def
        returns_of_def nth_list_update split: if_splits)
next
  case (B_IncrementAndWait j d)
  then show ?thesis using assms
    by (auto simp: b_increment_and_wait_def b_wait_or_return_def b_return_def set_count_def
        returns_of_def nth_list_update split: if_splits)
next
  case (B_IncrementTimed j d)
  then show ?thesis using assms
    by (auto simp: b_increment_and_wait_def b_wait_or_return_def b_return_def set_count_def
        returns_of_def nth_list_update split: if_splits)
next
  case (B_Resume j)
  then show ?thesis using assms
    by (auto simp: b_resume_def b_wait_or_return_def b_return_def returns_of_def
        nth_list_update split: if_splits party.splits)
next
  case (B_Timeout j)
  then show ?thesis using assms
    by (auto simp: b_timeout_def b_return_def returns_of_def nth_list_update
        split: if_splits party.splits bool.splits)
qed

lemma blocked_run:
  assumes "b_run es b = Inr b'" "i < length (b_parties b)" "b_parties b ! i = Blocked timed"
    "\<forall>e \<in> set es. \<not> is_init e" "B_Timeout i \<notin> set es"
    "\<forall>es1 b1. prefix es1 es \<and> es1 \<noteq> [] \<and> b_run es1 b = Inr b1 \<longrightarrow> b_count b1 \<noteq> 0"
  shows "i < length (b_parties b') \<and> b_parties b' ! i = Blocked timed
    \<and> returns_of i (b_returns b') = returns_of i (b_returns b)"
  using assms(1,4,5,6)
proof (induction es arbitrary: b' rule: rev_induct)
  case Nil
  then show ?case using assms(2,3) by simp
next
  case (snoc e es)
  from snoc.prems(1) obtain b1 where r: "b_run es b = Inr b1" and s: "b_step e b1 = Inr b'"
    unfolding b_run_snoc by blast
  have "\<forall>es1 b1. prefix es1 es \<and> es1 \<noteq> [] \<and> b_run es1 b = Inr b1 \<longrightarrow> b_count b1 \<noteq> 0"
    using snoc.prems(4) by (metis prefix_prefix)
  with snoc.IH [OF r] snoc.prems(2,3)
  have old: "i < length (b_parties b1)" "b_parties b1 ! i = Blocked timed"
    "returns_of i (b_returns b1) = returns_of i (b_returns b)"
    by simp_all
  have "b_count b' \<noteq> 0"
    using snoc.prems(1,4) by (metis prefix_order.order_refl snoc_eq_iff_butlast)
  moreover have "\<not> is_init e" "e \<noteq> B_Timeout i" using snoc.prems(2,3) by auto
  ultimately have "b_parties b' ! i = Blocked timed"
    "returns_of i (b_returns b') = returns_of i (b_returns b1)"
    using blocked_step [OF s old(1,2)] by blast+
  then show ?case using old(1,3) b_length_step [OF s] by simp
qed

text \<open>
  C3.  A barrier is made with count \<open>N\<close> and never re-armed, and any number of threads use
  it through \<open>pass\<close>, \<open>wait\<close> and the two forms of \<open>increment\<close> with any signed delta, in
  any order.  Take any moment of such a run and what follows it.  Then \<open>count\<close> is \<open>N\<close>
  less the net number of decrements applied; a waiting call returns without the timed
  out indicator only by a step that leaves \<open>count\<close> at most zero, that is with at least
  \<open>N\<close> net decrements applied; a thread that is blocked at that moment stays blocked, and
  returns from no call, as long as no step brings the net number of decrements to \<open>N\<close>
  and its timeout does not elapse; and when the net number of decrements is exactly
  \<open>N\<close>, no thread is left blocked: each has been woken, and a woken thread returns when it
  runs.
\<close>

theorem barrier_releases_at_zero:
  assumes "b_run es1 (Barrier n m) = Inr b1" and "b_run es2 b1 = Inr b"
    and "\<forall>e \<in> set (es1 @ es2). \<not> is_init e"
  shows "b_count b = n - net_decrements (es1 @ es2)
    \<and> (\<forall>i. (i, False) \<in> set (b_news b1 b) \<longrightarrow>
          (\<exists>es'. prefix es' es2 \<and> es' \<noteq> [] \<and> n \<le> net_decrements (es1 @ es')))
    \<and> (\<forall>i timed. i < length (b_parties b1) \<and> b_parties b1 ! i = Blocked timed
            \<and> B_Timeout i \<notin> set es2
            \<and> (\<forall>es'. prefix es' es2 \<and> es' \<noteq> [] \<longrightarrow> net_decrements (es1 @ es') \<noteq> n) \<longrightarrow>
          b_parties b ! i = Blocked timed
          \<and> returns_of i (b_returns b) = returns_of i (b_returns b1))
    \<and> (net_decrements (es1 @ es2) = n \<longrightarrow>
          list_all (\<lambda>x. x \<noteq> Blocked True \<and> x \<noteq> Blocked False) (b_parties b)
          \<and> (\<forall>i timed. i < length (b_parties b) \<and> b_parties b ! i = Woken timed \<longrightarrow>
                b_step (B_Resume i) b = Inr (b_return i False b)))"
proof -
  have c0: "b_count (Barrier n m) = n" by (simp add: Barrier_def)
  have n1: "\<forall>e \<in> set es1. \<not> is_init e" and n2: "\<forall>e \<in> set es2. \<not> is_init e"
    using assms(3) by simp_all
  have r: "b_run (es1 @ es2) (Barrier n m) = Inr b"
    using assms(1,2) by (simp add: b_run_append)
  have at: "b_count b' = n - net_decrements (es1 @ es')"
    if "prefix es' es2" "b_run es' b1 = Inr b'" for es' b'
  proof -
    have "b_run (es1 @ es') (Barrier n m) = Inr b'"
      using assms(1) that(2) by (simp add: b_run_append)
    moreover have "\<forall>e \<in> set (es1 @ es'). \<not> is_init e"
      using assms(3) that(1) by (auto simp: prefix_def)
    ultimately show ?thesis using b_count_run c0 by metis
  qed
  have 1: "b_count b = n - net_decrements (es1 @ es2)"
    using at [of es2 b] assms(2) by simp
  have 2: "\<exists>es'. prefix es' es2 \<and> es' \<noteq> [] \<and> n \<le> net_decrements (es1 @ es')"
    if "(i, False) \<in> set (b_news b1 b)" for i
  proof -
    from b_news_count [OF assms(2) that]
    obtain es' b' where p: "prefix es' es2" "es' \<noteq> []" and r': "b_run es' b1 = Inr b'"
      and z: "b_count b' \<le> 0"
      by blast
    from at [OF p(1) r'] z have "n \<le> net_decrements (es1 @ es')" by simp
    then show ?thesis using p by blast
  qed
  have 3: "b_parties b ! i = Blocked timed
      \<and> returns_of i (b_returns b) = returns_of i (b_returns b1)"
    if h: "i < length (b_parties b1) \<and> b_parties b1 ! i = Blocked timed
        \<and> B_Timeout i \<notin> set es2
        \<and> (\<forall>es'. prefix es' es2 \<and> es' \<noteq> [] \<longrightarrow> net_decrements (es1 @ es') \<noteq> n)"
    for i timed
  proof -
    have "b_count b' \<noteq> 0" if "prefix es' es2 \<and> es' \<noteq> [] \<and> b_run es' b1 = Inr b'" for es' b'
    proof -
      from that have p: "prefix es' es2" "es' \<noteq> []" "b_run es' b1 = Inr b'" by blast+
      from h p have "net_decrements (es1 @ es') \<noteq> n" by blast
      with at [OF p(1,3)] show ?thesis by simp
    qed
    then have "\<forall>es' b'. prefix es' es2 \<and> es' \<noteq> [] \<and> b_run es' b1 = Inr b' \<longrightarrow> b_count b' \<noteq> 0"
      by blast
    with blocked_run [OF assms(2) _ _ n2] h show ?thesis by blast
  qed
  have 4: "list_all (\<lambda>x. x \<noteq> Blocked True \<and> x \<noteq> Blocked False) (b_parties b)
      \<and> (\<forall>i timed. i < length (b_parties b) \<and> b_parties b ! i = Woken timed \<longrightarrow>
            b_step (B_Resume i) b = Inr (b_return i False b))"
    if "net_decrements (es1 @ es2) = n"
  proof -
    from that have z: "b_count b = 0" using 1 by simp
    have "released_at_zero (Barrier n m)"
      by (simp add: released_at_zero_def Barrier_def list_all_length)
    from released_run [OF r this] z
    have "list_all (\<lambda>x. x \<noteq> Blocked True \<and> x \<noteq> Blocked False) (b_parties b)"
      by (simp add: released_at_zero_def)
    moreover have "b_step (B_Resume i) b = Inr (b_return i False b)"
      if "i < length (b_parties b) \<and> b_parties b ! i = Woken timed" for i timed
      using that z by (simp add: b_resume_def b_wait_or_return_def)
    ultimately show ?thesis by blast
  qed
  have 2: "\<forall>i. (i, False) \<in> set (b_news b1 b) \<longrightarrow>
      (\<exists>es'. prefix es' es2 \<and> es' \<noteq> [] \<and> n \<le> net_decrements (es1 @ es'))"
    using 2 by blast
  have 3: "\<forall>i timed. i < length (b_parties b1) \<and> b_parties b1 ! i = Blocked timed
        \<and> B_Timeout i \<notin> set es2
        \<and> (\<forall>es'. prefix es' es2 \<and> es' \<noteq> [] \<longrightarrow> net_decrements (es1 @ es') \<noteq> n) \<longrightarrow>
      b_parties b ! i = Blocked timed
      \<and> returns_of i (b_returns b) = returns_of i (b_returns b1)"
    using 3 by blast
  have 4: "net_decrements (es1 @ es2) = n \<longrightarrow>
      list_all (\<lambda>x. x \<noteq> Blocked True \<and> x \<noteq> Blocked False) (b_parties b)
      \<and> (\<forall>i timed. i < length (b_parties b) \<and> b_parties b ! i = Woken timed \<longrightarrow>
            b_step (B_Resume i) b = Inr (b_return i False b))"
    using 4 by blast
  show ?thesis by (intro conjI) (rule 1, rule 2, rule 3, rule 4)
qed

text \<open>
  Three threads and a barrier of three: after two \<open>wait\<close> calls both threads are blocked;
  the third call brings \<open>count\<close> to zero, returns and wakes the two, which return when
  they run.  And the pattern of \<open>CheckPass\<close>, a barrier of zero: after one \<open>pass\<close> and the
  waiting \<open>increment\<close> of two the main thread is blocked with \<open>count\<close> at one, and has
  returned from no call; the second \<open>pass\<close> brings \<open>count\<close> to zero and wakes it.
\<close>

theorem barrier_releases_at_zero_witness:
  "b_run rendezvous_start (Barrier 3 3) = Inr rendezvous_waiting
   \<and> b_run [B_Wait 2] rendezvous_waiting = Inr rendezvous_met
   \<and> b_parties rendezvous_waiting = [Blocked False, Blocked False, Outside]
   \<and> b_count rendezvous_waiting = 1 \<and> b_returns rendezvous_waiting = []
   \<and> net_decrements (rendezvous_start @ [B_Wait 2]) = 3
   \<and> b_parties rendezvous_met = [Woken False, Woken False, Outside]
   \<and> b_count rendezvous_met = 0 \<and> b_returns rendezvous_met = [(2, False)]
   \<and> b_step (B_Resume 0) rendezvous_met = Inr (b_return 0 False rendezvous_met)
   \<and> b_step (B_Resume 1) rendezvous_met = Inr (b_return 1 False rendezvous_met)
   \<and> b_run pass_start (Barrier 0 1) = Inr pass_waiting
   \<and> b_run [] pass_waiting = Inr pass_waiting
   \<and> b_count pass_waiting = 1 \<and> b_parties pass_waiting ! 0 = Blocked False
   \<and> returns_of 0 (b_returns pass_waiting) = []
   \<and> b_run [B_Pass] pass_waiting = Inr pass_met
   \<and> net_decrements (pass_start @ [B_Pass]) = 0
   \<and> b_parties pass_met = [Woken False]
   \<and> b_step (B_Resume 0) pass_met = Inr (b_return 0 False pass_met)"
proof -
  have r1: "b_run rendezvous_start (Barrier 3 3) = Inr rendezvous_waiting" by code_simp
  have r2: "b_run [B_Wait 2] rendezvous_waiting = Inr rendezvous_met" by code_simp
  have n2: "\<forall>e \<in> set (rendezvous_start @ [B_Wait 2]). \<not> is_init e"
    by (simp add: rendezvous_start_def)
  have full: "net_decrements (rendezvous_start @ [B_Wait 2]) = 3"
    by (simp add: rendezvous_start_def net_decrements_def)
  have v: "b_parties rendezvous_waiting = [Blocked False, Blocked False, Outside]"
    "b_count rendezvous_waiting = 1" "b_returns rendezvous_waiting = []"
    "b_parties rendezvous_met = [Woken False, Woken False, Outside]"
    "b_count rendezvous_met = 0" "b_returns rendezvous_met = [(2, False)]"
    by code_simp+
  have w: "0 < length (b_parties rendezvous_met) \<and> b_parties rendezvous_met ! 0 = Woken False"
    "1 < length (b_parties rendezvous_met) \<and> b_parties rendezvous_met ! 1 = Woken False"
    by (simp_all add: v)
  from barrier_releases_at_zero [OF r1 r2 n2] full w
  have a: "b_step (B_Resume 0) rendezvous_met = Inr (b_return 0 False rendezvous_met)"
    "b_step (B_Resume 1) rendezvous_met = Inr (b_return 1 False rendezvous_met)"
    by blast+
  have p1: "b_run pass_start (Barrier 0 1) = Inr pass_waiting" by code_simp
  have p0: "b_run [] pass_waiting = Inr pass_waiting" by simp
  have p2: "b_run [B_Pass] pass_waiting = Inr pass_met" by code_simp
  have m1: "\<forall>e \<in> set (pass_start @ []). \<not> is_init e"
    and m2: "\<forall>e \<in> set (pass_start @ [B_Pass]). \<not> is_init e"
    by (simp_all add: pass_start_def)
  have u: "b_parties pass_waiting = [Blocked False]" "b_returns pass_waiting = []"
    "b_parties pass_met = [Woken False]"
    by code_simp+
  have zero: "net_decrements (pass_start @ [B_Pass]) = 0"
    by (simp add: pass_start_def net_decrements_def)
  have still: "0 < length (b_parties pass_waiting) \<and> b_parties pass_waiting ! 0 = Blocked False
      \<and> B_Timeout 0 \<notin> set []
      \<and> (\<forall>es'. prefix es' [] \<and> es' \<noteq> [] \<longrightarrow> net_decrements (pass_start @ es') \<noteq> 0)"
    by (simp add: u)
  note waiting = barrier_releases_at_zero [OF p1 p0 m1]
  from waiting have c: "b_count pass_waiting = 0 - net_decrements (pass_start @ [])" by blast
  from waiting still
  have b: "b_parties pass_waiting ! 0 = Blocked False
      \<and> returns_of 0 (b_returns pass_waiting) = returns_of 0 (b_returns pass_waiting)"
    by blast
  have c1: "b_count pass_waiting = 1"
    using c by (simp add: pass_start_def net_decrements_def)
  have x: "0 < length (b_parties pass_met) \<and> b_parties pass_met ! 0 = Woken False"
    by (simp add: u)
  from barrier_releases_at_zero [OF p1 p2 m2] zero x
  have d: "b_step (B_Resume 0) pass_met = Inr (b_return 0 False pass_met)" by blast
  have e: "returns_of 0 (b_returns pass_waiting) = []" by (simp add: u returns_of_def)
  from r1 r2 v full a p1 p0 c1 b e p2 zero u(3) d show ?thesis by blast
qed

section \<open>The barrier's wait with a timeout\<close>

text \<open>
  C9.  When a thread calls the timed form of \<open>increment\<close> with \<open>delta\<close> and its timeout
  elapses while it is still blocked, that is before \<open>count\<close> has reached zero, the call
  returns the timed out indicator and \<open>count\<close> is what it was before the call plus
  \<open>delta\<close>: the delta is not taken back.  \<open>count\<close> then stays as it is whatever the
  threads do short of contributing or of \<open>init\<close>, and \<open>init(c)\<close> sets it to \<open>c\<close>.
\<close>

theorem timed_out_wait_keeps_delta:
  assumes "b_step (B_IncrementTimed i delta) b = Inr b1" and "b_step (B_Timeout i) b1 = Inr b2"
  shows "0 < b_count b + delta \<and> b_parties b1 ! i = Blocked True
    \<and> b_count b2 = b_count b + delta
    \<and> b_returns b2 = b_returns b @ [(i, True)] \<and> b_parties b2 ! i = Outside
    \<and> (\<forall>es b3. (\<forall>e \<in> set es. \<not> is_init e \<and> delta_of e = 0) \<and> b_run es b2 = Inr b3 \<longrightarrow>
          b_count b3 = b_count b2)
    \<and> (\<forall>c b3. b_step (B_Init c) b2 = Inr b3 \<longrightarrow> b_count b3 = c)"
proof -
  from assms(2) have blocked: "b_parties b1 ! i = Blocked True" and lt: "i < length (b_parties b1)"
    and b2: "b2 = b_return i True b1"
    by (auto simp: b_timeout_def split: if_splits party.splits bool.splits)
  from assms(1) have b1: "b1 = b_wait_or_return i True (set_count (b_count b + delta) b)"
    by (auto simp: b_increment_and_wait_def split: if_splits)
  have pos: "0 < b_count b + delta"
  proof (rule ccontr)
    assume "\<not> 0 < b_count b + delta"
    then have "b_parties b1 ! i = Outside"
      using lt unfolding b1 by (simp add: b_wait_or_return_def b_return_def)
    then show False using blocked by simp
  qed
  then have c1: "b_count b1 = b_count b + delta" "b_returns b1 = b_returns b"
    unfolding b1 by (simp_all add: b_wait_or_return_def)
  have c2: "b_count b2 = b_count b + delta" "b_returns b2 = b_returns b @ [(i, True)]"
    "b_parties b2 ! i = Outside"
    using c1 lt unfolding b2 by (simp_all add: b_return_def)
  have still: "b_count b3 = b_count b2"
    if "(\<forall>e \<in> set es. \<not> is_init e \<and> delta_of e = 0) \<and> b_run es b2 = Inr b3" for es b3
  proof -
    from that have r: "b_run es b2 = Inr b3" and n: "\<forall>e \<in> set es. \<not> is_init e"
      and z: "\<forall>e \<in> set es. delta_of e = 0"
      by blast+
    from z have "sum_list (map delta_of es) = 0" by (induction es) auto
    then have "net_decrements es = 0" by (simp add: net_decrements_def)
    with b_count_run [OF r n] show ?thesis by simp
  qed
  have reset: "b_count b3 = c" if "b_step (B_Init c) b2 = Inr b3" for c b3
    using that by (auto simp: b_init_def split: if_splits)
  from pos blocked c2 still reset show ?thesis by blast
qed

text \<open>The barrier of zero used to sleep: after the timeout \<open>count\<close> is one, and \<open>init(0)\<close>
  sets it to zero.\<close>

theorem timed_out_wait_keeps_delta_witness:
  "b_step (B_IncrementTimed 0 1) (Barrier 0 1) = Inr sleeping
   \<and> b_step (B_Timeout 0) sleeping = Inr slept
   \<and> b_parties sleeping = [Blocked True]
   \<and> b_count slept = 1 \<and> b_returns slept = [(0, True)] \<and> b_parties slept = [Outside]
   \<and> b_run [B_Resume 0, B_Timeout 0] slept = Inl B_not_enabled
   \<and> b_run [] slept = Inr slept
   \<and> b_step (B_Init 0) slept = Inr (slept\<lparr>b_count := 0\<rparr>)
   \<and> b_count (slept\<lparr>b_count := 0\<rparr>) = 0"
proof -
  have s1: "b_step (B_IncrementTimed 0 1) (Barrier 0 1) = Inr sleeping" by code_simp
  have s2: "b_step (B_Timeout 0) sleeping = Inr slept" by code_simp
  have v: "b_parties sleeping = [Blocked True]" "b_returns slept = [(0, True)]"
    "b_parties slept = [Outside]" "b_run [B_Resume 0, B_Timeout 0] slept = Inl B_not_enabled"
    by code_simp+
  have i: "b_step (B_Init 0) slept = Inr (slept\<lparr>b_count := 0\<rparr>)"
    by (simp add: b_init_def set_count_def v)
  note full = timed_out_wait_keeps_delta [OF s1 s2]
  from full have c: "b_count slept = b_count (Barrier 0 1) + 1" by blast
  have e: "(\<forall>e \<in> set []. \<not> is_init e \<and> delta_of e = 0) \<and> b_run [] slept = Inr slept"
    by simp
  from full i have z: "b_count (slept\<lparr>b_count := 0\<rparr>) = 0" by blast
  from c have "b_count slept = 1" by (simp add: Barrier_def)
  with s1 s2 v i z show ?thesis by simp
qed

end
